theory Spec2Isabelle
  imports Complex_Main "HOL-Library.Word" "HOL-Library.Multiset"
begin

section \<open>JavaScript strings\<close>

text \<open>
  A JavaScript string is a sequence of UTF-16 code units, and \<open>length\<close> counts code units.
  The box-drawing glyphs of a tree listing are single code units beyond ASCII, so a string
  is modelled as a list of 16-bit words rather than as an 8-bit \<open>string\<close>.
\<close>

type_synonym jschar = "16 word"
type_synonym jsstring = "jschar list"

definition ascii :: "string \<Rightarrow> jsstring" where
  "ascii s = map of_char s"

definition LF :: jschar where "LF = 0x0A"
definition SPACE :: jschar where "SPACE = 0x20"
definition QUOTE :: jschar where "QUOTE = 0x22"
definition DOT :: jschar where "DOT = 0x2E"
definition SLASH :: jschar where "SLASH = 0x2F"

text \<open>The glyphs \<open>U+251C\<close>, \<open>U+2514\<close>, \<open>U+2502\<close> and \<open>U+2500\<close> of the source.\<close>

definition BOX_TEE :: jschar where "BOX_TEE = 0x251C"
definition BOX_ELBOW :: jschar where "BOX_ELBOW = 0x2514"
definition BOX_VERT :: jschar where "BOX_VERT = 0x2502"
definition BOX_HORIZ :: jschar where "BOX_HORIZ = 0x2500"

lemmas char_defs = LF_def SPACE_def QUOTE_def DOT_def SLASH_def
  BOX_TEE_def BOX_ELBOW_def BOX_VERT_def BOX_HORIZ_def

text \<open>
  ECMAScript white space and line terminators: what \<open>String.prototype.trim\<close> strips and
  what the regular expression class \<open>\s\<close> matches.
\<close>

definition is_space :: "jschar \<Rightarrow> bool" where
  "is_space c \<longleftrightarrow>
     c \<in> {0x09, 0x0A, 0x0B, 0x0C, 0x0D, 0x20, 0xA0, 0x1680, 0x2028, 0x2029, 0x202F, 0x205F,
          0x3000, 0xFEFF}
     \<or> (0x2000 \<le> c \<and> c \<le> 0x200A)"

definition str_trim :: "jsstring \<Rightarrow> jsstring" where
  "str_trim s = rev (dropWhile is_space (rev (dropWhile is_space s)))"

definition str_startsWith :: "jsstring \<Rightarrow> jsstring \<Rightarrow> bool" where
  "str_startsWith s p \<longleftrightarrow> take (length p) s = p"

definition str_endsWith :: "jsstring \<Rightarrow> jsstring \<Rightarrow> bool" where
  "str_endsWith s p \<longleftrightarrow> length p \<le> length s \<and> drop (length s - length p) s = p"

fun str_includes :: "jsstring \<Rightarrow> jsstring \<Rightarrow> bool" where
  "str_includes [] p = (p = [])"
| "str_includes (c # s) p = (str_startsWith (c # s) p \<or> str_includes s p)"

text \<open>
  \<open>s.replace(p, r)\<close> with a string pattern replaces the first occurrence only. The source
  calls it with the replacement \<open>''\<close>, which has no \<open>$\<close> pattern to expand.
\<close>

fun str_replace :: "jsstring \<Rightarrow> jsstring \<Rightarrow> jsstring \<Rightarrow> jsstring" where
  "str_replace [] p r = (if p = [] then r else [])"
| "str_replace (c # s) p r =
     (if str_startsWith (c # s) p then r @ drop (length p) (c # s) else c # str_replace s p r)"

text \<open>\<open>s.split(sep)\<close> for a separator of one code unit; the result is never empty.\<close>

fun str_split :: "jsstring \<Rightarrow> jschar \<Rightarrow> jsstring list" where
  "str_split [] sep = [[]]"
| "str_split (c # s) sep =
     (if c = sep then [] # str_split s sep
      else (case str_split s sep of [] \<Rightarrow> [[c]] | x # xs \<Rightarrow> (c # x) # xs))"

text \<open>
  A string is well formed when it has no unpaired surrogate: every code unit in
  \<open>D800..DBFF\<close> is followed by one in \<open>DC00..DFFF\<close>, and no other code unit lies in either
  range. \<open>encodeURIComponent\<close> throws a \<open>URIError\<close> on a string that is not well formed.
\<close>

definition is_high_surrogate :: "jschar \<Rightarrow> bool" where
  "is_high_surrogate c \<longleftrightarrow> 0xD800 \<le> c \<and> c \<le> 0xDBFF"

definition is_low_surrogate :: "jschar \<Rightarrow> bool" where
  "is_low_surrogate c \<longleftrightarrow> 0xDC00 \<le> c \<and> c \<le> 0xDFFF"

fun well_formed :: "jsstring \<Rightarrow> bool" where
  "well_formed [] = True"
| "well_formed [c] = (\<not> is_high_surrogate c \<and> \<not> is_low_surrogate c)"
| "well_formed (c # d # s) =
     (if is_high_surrogate c \<and> is_low_surrogate d then well_formed s
      else \<not> is_high_surrogate c \<and> \<not> is_low_surrogate c \<and> well_formed (d # s))"

section \<open>The file tree of \<open>pages/Index\<close>\<close>

datatype node_type = File | Folder

text \<open>
  \<open>interface FileNode { id; name; type; content?; children?; parent? }\<close>. An optional
  property that is absent or \<open>undefined\<close> is \<open>None\<close>.
\<close>

datatype FileNode = FileNode
  (id: jsstring) (name: jsstring) (type: node_type)
  (content: "jsstring option") (children: "FileNode list option") (parent: "jsstring option")

lemma children_size [termination_simp]:
  "node \<in> set nodes \<Longrightarrow> children node = Some cs \<Longrightarrow> size_list size cs < size_list size nodes"
  by (cases node) (auto dest!: size_list_estimation'[where f=size and y="size node"])

text \<open>Every node of a forest, at every nesting depth, in pre-order.\<close>

fun all_nodes :: "FileNode list \<Rightarrow> FileNode list" where
  "all_nodes nodes =
     concat (map (\<lambda>node. node # (case children node of Some cs \<Rightarrow> all_nodes cs | None \<Rightarrow> []))
                 nodes)"

declare all_nodes.simps [simp del]

lemma all_nodes_Nil [simp]: "all_nodes [] = []"
  by (simp add: all_nodes.simps)

lemma all_nodes_Cons [simp]:
  "all_nodes (n # ns) =
     n # (case children n of Some cs \<Rightarrow> all_nodes cs | None \<Rightarrow> []) @ all_nodes ns"
  by (simp add: all_nodes.simps[of "n # ns"] all_nodes.simps[of ns])

section \<open>\<open>FileExplorer.deleteItem\<close>\<close>

text \<open>
  \<open>nodes.filter(node => node.id !== itemId).map(node => ({...node, children:
  node.children ? filterNodes(node.children) : undefined}))\<close>. An array, even an empty one,
  is truthy, so the conditional is a map over the optional children.
\<close>

fun filterNodes :: "jsstring \<Rightarrow> FileNode list \<Rightarrow> FileNode list" where
  "filterNodes itemId nodes =
     map (\<lambda>node. FileNode (id node) (name node) (type node) (content node)
                  (case children node of Some cs \<Rightarrow> Some (filterNodes itemId cs) | None \<Rightarrow> None)
                  (parent node))
         (filter (\<lambda>node. id node \<noteq> itemId) nodes)"

declare filterNodes.simps [simp del]

lemma filterNodes_Nil [simp]: "filterNodes itemId [] = []"
  by (simp add: filterNodes.simps)

lemma filterNodes_Cons [simp]:
  "filterNodes itemId (n # ns) =
     (if id n \<noteq> itemId
      then FileNode (id n) (name n) (type n) (content n)
             (case children n of Some cs \<Rightarrow> Some (filterNodes itemId cs) | None \<Rightarrow> None)
             (parent n) # filterNodes itemId ns
      else filterNodes itemId ns)"
  by (simp add: filterNodes.simps[of itemId "n # ns"] filterNodes.simps[of itemId ns])

text \<open>The component state that \<open>deleteItem\<close> writes: the forest and the selected node.\<close>

record explorer_state =
  fileTree :: "FileNode list"
  selectedFile :: "FileNode option"

definition deleteItem :: "jsstring \<Rightarrow> explorer_state \<Rightarrow> explorer_state" where
  "deleteItem itemId st =
     st\<lparr>fileTree := filterNodes itemId (fileTree st),
        selectedFile := (case selectedFile st of
                           None \<Rightarrow> None
                         | Some sel \<Rightarrow> if id sel = itemId then None else Some sel)\<rparr>"

text \<open>The initial forest of \<open>pages/Index\<close>, with \<open>main.py\<close> selected.\<close>

definition index_main_py :: FileNode where
  "index_main_py = FileNode (ascii ''2'') (ascii ''main.py'') File
     (Some (ascii ''# Welcome to your new project!'' @ [LF] @ ascii ''print('' @ [QUOTE]
            @ ascii ''Hello, World!'' @ [QUOTE] @ ascii '')''))
     None (Some (ascii ''1''))"

definition index_readme :: FileNode where
  "index_readme = FileNode (ascii ''3'') (ascii ''README.md'') File
     (Some (ascii ''# my-project'' @ [LF, LF]
            @ ascii ''A new project created with File Structure Builder.''))
     None None"

definition index_state :: explorer_state where
  "index_state =
     \<lparr>fileTree =
        [FileNode (ascii ''1'') (ascii ''src'') Folder None (Some [index_main_py]) None,
         index_readme],
      selectedFile = Some index_main_py\<rparr>"


section \<open>Flattening the forest for upload (\<open>ExportPanel\<close>)\<close>

text \<open>\<open>basePath ? `${basePath}/${node.name}` : node.name\<close>: the empty string is falsy.\<close>

definition joinPath :: "jsstring \<Rightarrow> jsstring \<Rightarrow> jsstring" where
  "joinPath basePath nm = (if basePath \<noteq> [] then basePath @ [SLASH] @ nm else nm)"

text \<open>
  \<open>node.content || `// ${node.name}\n// Auto-generated file`\<close>: an absent and an empty
  content both give the placeholder.
\<close>

definition content_or_default :: "FileNode \<Rightarrow> jsstring" where
  "content_or_default node =
     (case content node of
        Some c \<Rightarrow> if c \<noteq> [] then c
                  else ascii ''// '' @ name node @ [LF] @ ascii ''// Auto-generated file''
      | None \<Rightarrow> ascii ''// '' @ name node @ [LF] @ ascii ''// Auto-generated file'')"

text \<open>
  \<open>getFilesForHFUpload\<close> returns an array of \<open>{path, content}\<close>: order and duplicates are
  kept. A folder whose \<open>children\<close> is absent takes the same branch as an empty one.
\<close>

fun getFilesForHFUpload :: "FileNode list \<Rightarrow> jsstring \<Rightarrow> (jsstring \<times> jsstring) list" where
  "getFilesForHFUpload nodes basePath =
     concat (map (\<lambda>node.
       let fullPath = joinPath basePath (name node) in
       (case type node of
          File \<Rightarrow> [(fullPath, content_or_default node)]
        | Folder \<Rightarrow>
            (case children node of
               Some cs \<Rightarrow> if length cs > 0 then getFilesForHFUpload cs fullPath
                          else [(fullPath @ ascii ''/.gitkeep'', [])]
             | None \<Rightarrow> [(fullPath @ ascii ''/.gitkeep'', [])]))) nodes)"

declare getFilesForHFUpload.simps [simp del]

text \<open>
  \<open>convertFileTreeToGitHubFiles\<close> returns a \<open>Record<string, {content}>\<close>: a later write to a
  path replaces an earlier one, and \<open>Object.assign\<close> copies the child record over the
  result. The record is a map from path to content (the order of its keys plays no part
  here). An assignment \<open>result[k] = v\<close> with \<open>k = "__proto__"\<close> sets the prototype of a
  plain object and adds no property.
\<close>

definition obj_set ::
  "(jsstring \<rightharpoonup> jsstring) \<Rightarrow> jsstring \<Rightarrow> jsstring \<Rightarrow> (jsstring \<rightharpoonup> jsstring)" where
  "obj_set ob k v = (if k = ascii ''__proto__'' then ob else ob(k \<mapsto> v))"

fun convertFileTreeToGitHubFiles :: "FileNode list \<Rightarrow> jsstring \<Rightarrow> (jsstring \<rightharpoonup> jsstring)" where
  "convertFileTreeToGitHubFiles files basePath =
     foldl (\<lambda>result file.
       let fullPath = joinPath basePath (name file) in
       (case type file of
          File \<Rightarrow> obj_set result fullPath (content_or_default file)
        | Folder \<Rightarrow>
            (case children file of
               Some cs \<Rightarrow>
                 let childFiles = convertFileTreeToGitHubFiles cs fullPath;
                     result' = result ++ childFiles
                 in if length cs = 0 then obj_set result' (fullPath @ ascii ''/.gitkeep'') []
                    else result'
             | None \<Rightarrow> result))) Map.empty files"

declare convertFileTreeToGitHubFiles.simps [simp del]

text \<open>
  To state what the walk emits for each node: the nodes the walk visits, each with its
  joined path (the walk descends into the children of folders only), and the entries one
  visited node contributes by itself.
\<close>

fun nodes_with_paths :: "FileNode list \<Rightarrow> jsstring \<Rightarrow> (jsstring \<times> FileNode) list" where
  "nodes_with_paths nodes basePath =
     concat (map (\<lambda>node.
       (joinPath basePath (name node), node)
       # (case type node of
            File \<Rightarrow> []
          | Folder \<Rightarrow>
              (case children node of
                 Some cs \<Rightarrow> nodes_with_paths cs (joinPath basePath (name node))
               | None \<Rightarrow> []))) nodes)"

declare nodes_with_paths.simps [simp del]

fun emitted :: "jsstring \<times> FileNode \<Rightarrow> (jsstring \<times> jsstring) list" where
  "emitted (path, node) =
     (case type node of
        File \<Rightarrow> [(path, content_or_default node)]
      | Folder \<Rightarrow>
          (if children node = None \<or> children node = Some []
           then [(path @ ascii ''/.gitkeep'', [])] else []))"

text \<open>
  The writes one visited node makes by itself to the record of
  \<open>convertFileTreeToGitHubFiles\<close>: there the sentinel is written for a folder whose \<open>children\<close>
  is an empty array only, an absent \<open>children\<close> writes nothing.
\<close>

fun recorded :: "jsstring \<times> FileNode \<Rightarrow> (jsstring \<times> jsstring) list" where
  "recorded (path, node) =
     (case type node of
        File \<Rightarrow> [(path, content_or_default node)]
      | Folder \<Rightarrow> (if children node = Some [] then [(path @ ascii ''/.gitkeep'', [])] else []))"

text \<open>A forest with an empty folder nested in a folder, next to a file.\<close>

definition sample_forest :: "FileNode list" where
  "sample_forest =
     [FileNode (ascii ''a'') (ascii ''src'') Folder None
        (Some [FileNode (ascii ''b'') (ascii ''empty'') Folder None (Some []) (Some (ascii ''a'')),
               FileNode (ascii ''c'') (ascii ''x.py'') File (Some (ascii ''pass'')) None
                 (Some (ascii ''a''))]) None]"

text \<open>
  Two folders of the same name side by side, the first empty, the second holding a file
  named \<open>.gitkeep\<close>.
\<close>

definition colliding_forest :: "FileNode list" where
  "colliding_forest =
     [FileNode (ascii ''1'') (ascii ''a'') Folder None (Some []) None,
      FileNode (ascii ''2'') (ascii ''a'') Folder None
        (Some [FileNode (ascii ''3'') (ascii ''.gitkeep'') File (Some (ascii ''x'')) None
                 (Some (ascii ''2''))]) None]"


section \<open>The Space upload with retries (\<open>ExportPanel\<close>)\<close>

text \<open>
  What one \<open>fetch\<close> gives: a rejected promise, or a response with its status and, of its
  body, what \<open>(await res.json())?.error\<close> is as the message of \<open>new Error\<close>: \<open>Some\<close> its text
  when the body parses as JSON with a truthy \<open>error\<close> property, \<open>None\<close> otherwise. The remote
  service is a function from the attempt number to what that attempt's \<open>fetch\<close> gives.
\<close>

datatype fetch_result = NetworkFailure | Response (status: nat) (error_field: "jsstring option")

datatype upload_exn = Error (message: jsstring) | TypeError | FetchRejected | URIError

datatype upload_outcome = Uploaded | Thrown upload_exn

text \<open>What a run did: the \<open>fetch\<close> calls made, the delays slept in order, how it ended.\<close>

record upload_run =
  attempts :: nat
  sleeps :: "rat list"
  outcome :: upload_outcome

text \<open>The decimal digits of a status, as the template literal prints a number.\<close>

function digits :: "nat \<Rightarrow> jsstring" where
  "digits n = (if n < 10 then [of_nat (48 + n)] else digits (n div 10) @ [of_nat (48 + n mod 10)])"
  by pat_completeness auto
termination
  by (relation "measure (\<lambda>n. n)") auto

declare digits.simps [simp del]

definition failure_message :: "jsstring \<Rightarrow> nat \<Rightarrow> jsstring" where
  "failure_message path st =
     ascii ''Failed to upload: '' @ path @ ascii ''. Status '' @ digits st @ ascii ''. ''
     @ ascii ''If this is your FIRST upload to a new Space, it can take up to a minute for provisioning. ''
     @ ascii ''If this keeps failing, wait and try again.''"

definition res_ok :: "nat \<Rightarrow> bool" where
  "res_ok st \<longleftrightarrow> 200 \<le> st \<and> st \<le> 299"

text \<open>
  The statements after the loop: \<open>throw new Error(errObj?.error || `Failed to upload: ...`)\<close>.
  With no response recorded (\<open>tries = 0\<close>) the template reads \<open>lastErr.status\<close> of
  \<open>undefined\<close>, a \<open>TypeError\<close>.
\<close>

definition raise_upload_error :: "jsstring \<Rightarrow> fetch_result option \<Rightarrow> upload_exn" where
  "raise_upload_error path lastErr =
     (case lastErr of
        Some (Response st (Some e)) \<Rightarrow> Error e
      | Some (Response st None) \<Rightarrow> Error (failure_message path st)
      | _ \<Rightarrow> TypeError)"

text \<open>
  \<open>utf8ToBase64(file.content)\<close> is \<open>btoa\<close> of the bytes that \<open>encodeURIComponent\<close> gives: it
  throws a \<open>URIError\<close> exactly when the content is not well formed, and it is evaluated in
  each iteration as an argument of \<open>fetch\<close>, before the call.

  The \<open>for\<close> loop of \<open>uploadWithRetry\<close>, from attempt \<open>t\<close> with the current \<open>delay\<close>. The delay
  is a JavaScript number; from 2000 every product by 1.25 below the cap is a dyadic rational
  of few bits (2500, 3125, 3906.25, 4882.8125), so the double arithmetic is exact and the
  delay is a rational here.
\<close>

function upload_loop ::
  "(nat \<Rightarrow> fetch_result) \<Rightarrow> jsstring \<Rightarrow> jsstring \<Rightarrow> nat \<Rightarrow> nat \<Rightarrow> rat \<Rightarrow> fetch_result option
    \<Rightarrow> rat list \<Rightarrow> upload_run" where
  "upload_loop server path body tries t delay lastErr slept =
     (if t < tries then
        (if \<not> well_formed body
         then \<lparr>attempts = t, sleeps = slept, outcome = Thrown URIError\<rparr>
         else
           (case server t of
              NetworkFailure \<Rightarrow> \<lparr>attempts = t + 1, sleeps = slept, outcome = Thrown FetchRejected\<rparr>
            | Response st e \<Rightarrow>
                if res_ok st then \<lparr>attempts = t + 1, sleeps = slept, outcome = Uploaded\<rparr>
                else if st = 404 \<and> int t < int tries - 1
                  then upload_loop server path body tries (t + 1) (min (delay * (5 / 4)) 5000)
                         (Some (Response st e)) (slept @ [delay])
                else \<lparr>attempts = t + 1, sleeps = slept,
                      outcome = Thrown (raise_upload_error path (Some (Response st e)))\<rparr>))
      else \<lparr>attempts = t, sleeps = slept, outcome = Thrown (raise_upload_error path lastErr)\<rparr>)"
  by pat_completeness auto
termination
  by (relation "measure (\<lambda>(server, path, body, tries, t, delay, lastErr, slept). tries - t)") auto

declare upload_loop.simps [simp del]

text \<open>
  \<open>uploadWithRetry(file, tries = 10)\<close> for a file of the given path and content (\<open>body\<close>); its
  one call site passes no \<open>tries\<close>. Its first statement builds the URL with
  \<open>encodeURIComponent(file.path)\<close>, which throws before any \<open>fetch\<close> when the path is not well
  formed.
\<close>

definition uploadWithRetry ::
  "(nat \<Rightarrow> fetch_result) \<Rightarrow> jsstring \<Rightarrow> jsstring \<Rightarrow> nat \<Rightarrow> upload_run" where
  "uploadWithRetry server path body tries =
     (if \<not> well_formed path then \<lparr>attempts = 0, sleeps = [], outcome = Thrown URIError\<rparr>
      else upload_loop server path body tries 0 2000 None [])"

text \<open>The delays of \<open>k\<close> successive sleeps, the first one \<open>delay\<close>.\<close>

fun backoff :: "nat \<Rightarrow> rat \<Rightarrow> rat list" where
  "backoff 0 delay = []"
| "backoff (Suc k) delay = delay # backoff k (min (delay * (5 / 4)) 5000)"

fun not_found :: "fetch_result \<Rightarrow> bool" where
  "not_found (Response st e) = (st = 404)"
| "not_found NetworkFailure = False"

text \<open>
  Three remote services: one that answers 404 with an empty body, one that answers 404 with
  a JSON body \<open>{"error": "Repository not found"}\<close>, one that answers 404 three times and
  then 500.
\<close>

definition silent_404 :: "nat \<Rightarrow> fetch_result" where
  "silent_404 t = Response 404 None"

definition provisioning_404 :: "nat \<Rightarrow> fetch_result" where
  "provisioning_404 t = Response 404 (Some (ascii ''Repository not found''))"

definition then_500 :: "nat \<Rightarrow> fetch_result" where
  "then_500 t = (if t < 3 then Response 404 None else Response 500 None)"

text \<open>A path with an unpaired surrogate.\<close>

definition lone_surrogate :: jsstring where
  "lone_surrogate = [0xD800]"

section \<open>The tree-listing parser (\<open>StructureImporter.parseStructure\<close>)\<close>

subsection \<open>One line\<close>

text \<open>
  The test that skips the root project name line:
  \<open>line.includes('/') && !line.startsWith(' ') && !line.startsWith(TEE) &&
  !line.startsWith(ELBOW)\<close>.
\<close>

definition is_root_label :: "jsstring \<Rightarrow> bool" where
  "is_root_label line \<longleftrightarrow>
     str_includes line [SLASH] \<and> \<not> str_startsWith line [SPACE]
     \<and> \<not> str_startsWith line [BOX_TEE] \<and> \<not> str_startsWith line [BOX_ELBOW]"

text \<open>\<open>s.replace(/\s+/g, ' ')\<close>: every maximal run of white space becomes one space.\<close>

function collapse_ws :: "jsstring \<Rightarrow> jsstring" where
  "collapse_ws [] = []"
| "collapse_ws (c # s) =
     (if is_space c then SPACE # collapse_ws (dropWhile is_space s) else c # collapse_ws s)"
  by pat_completeness auto
termination
  by (relation "measure length") (auto simp: less_Suc_eq_le length_dropWhile_le)

text \<open>\<open>line.replace(/[TEE ELBOW VERT HORIZ]/g, '').replace(/\s+/g, ' ')\<close>.\<close>

definition clean_line :: "jsstring \<Rightarrow> jsstring" where
  "clean_line line =
     collapse_ws (filter (\<lambda>c. c \<notin> {BOX_TEE, BOX_ELBOW, BOX_VERT, BOX_HORIZ}) line)"

text \<open>
  \<open>(line.length - cleanLine.trim().length) / 4\<close>. The operator \<open>/\<close> of JavaScript is the
  division of numbers, not an integer division: a difference that is no multiple of 4
  gives a fraction. Both lengths are integers below \<open>2^53\<close>, so the quotient by 4 is exact
  in a double and the depth is a rational.
\<close>

definition line_depth :: "jsstring \<Rightarrow> rat" where
  "line_depth line =
     (of_nat (length line) - of_nat (length (str_trim (clean_line line)))) / 4"

text \<open>The trimmed name, with one trailing \<open>/\<close> sliced off (\<open>name.slice(0, -1)\<close>).\<close>

definition line_name :: "jsstring \<Rightarrow> jsstring" where
  "line_name line =
     (let name = str_trim (clean_line line)
      in if str_endsWith name [SLASH] then butlast name else name)"

text \<open>\<open>line.includes('/') || name.endsWith('/')\<close>, with the sliced name.\<close>

definition line_isFolder :: "jsstring \<Rightarrow> bool" where
  "line_isFolder line \<longleftrightarrow> str_includes line [SLASH] \<or> str_endsWith (line_name line) [SLASH]"

text \<open>\<open>name.includes('.') ? name.split('.').pop() : ''\<close>.\<close>

definition fileExtension :: "jsstring \<Rightarrow> jsstring" where
  "fileExtension nm = (if str_includes nm [DOT] then last (str_split nm DOT) else [])"

text \<open>The content stub of a new file, by extension or name.\<close>

definition default_content :: "jsstring \<Rightarrow> jsstring" where
  "default_content nm =
     (if fileExtension nm = ascii ''py''
        then ascii ''# '' @ nm @ [LF] @ ascii ''# TODO: Implement functionality''
      else if fileExtension nm = ascii ''txt''
        then ascii ''# Requirements for '' @ str_replace nm (ascii ''.txt'') [] @ [LF]
             @ ascii ''# Add your dependencies here''
      else if fileExtension nm = ascii ''md''
        then ascii ''# '' @ str_replace nm (ascii ''.md'') [] @ [LF, LF]
             @ ascii ''Project description goes here.''
      else if fileExtension nm = ascii ''json''
        then ascii ''{'' @ [LF] @ ascii ''  '' @ [QUOTE] @ ascii ''// TODO'' @ [QUOTE] @ ascii '': ''
             @ [QUOTE] @ ascii ''Add configuration'' @ [QUOTE] @ [LF] @ ascii ''}''
      else if nm = ascii ''Dockerfile''
        then ascii ''FROM python:3.9'' @ [LF, LF] @ ascii ''# TODO: Add Dockerfile instructions''
      else ascii ''# '' @ nm @ [LF] @ ascii ''# TODO: Add content'')"

subsection \<open>The store\<close>

text \<open>
  The parser builds its result by mutation: a node pushed on \<open>result\<close> or on a parent's
  \<open>children\<close> is the same object that a stack frame refers to, and a later
  \<open>parent.children.push\<close> changes it in place. Node objects therefore live in a store, a
  list indexed by address in order of allocation, and \<open>children\<close>, \<open>result\<close> and the frames
  hold addresses.
\<close>

type_synonym addr = nat

record node_obj =
  o_id :: jsstring
  o_name :: jsstring
  o_type :: node_type
  o_content :: "jsstring option"
  o_children :: "addr list option"
  o_parent :: "jsstring option"

record parse_state =
  heap :: "node_obj list"
  result :: "addr list"
  stack :: "(addr \<times> rat) list"

definition init_state :: parse_state where
  "init_state = \<lparr>heap = [], result = [], stack = []\<rparr>"

text \<open>
  \<open>while (stack.length > 0 && stack[stack.length - 1].depth >= depth) stack.pop()\<close>; the
  top of the stack is the last element of the array.
\<close>

function pop_frames :: "(addr \<times> rat) list \<Rightarrow> rat \<Rightarrow> (addr \<times> rat) list" where
  "pop_frames stk depth =
     (if stk \<noteq> [] \<and> snd (last stk) \<ge> depth then pop_frames (butlast stk) depth else stk)"
  by pat_completeness auto
termination
  by (relation "measure (\<lambda>(stk, depth). length stk)") auto

declare pop_frames.simps [simp del]

text \<open>
  The body of the \<open>for\<close> loop. The id of a node is \<open>Date.now().toString() +
  Math.random().toString(36).substr(2, 9)\<close>, which the program does not determine: \<open>gen k\<close>
  is the id drawn for the \<open>k\<close>-th node created, and the new node's address is the number of
  nodes created before it.
\<close>

definition process_line :: "(nat \<Rightarrow> jsstring) \<Rightarrow> parse_state \<Rightarrow> jsstring \<Rightarrow> parse_state" where
  "process_line gen s line =
     (if is_root_label line then s
      else
        let depth = line_depth line;
            name = line_name line
        in if name = [] then s
           else
             let isFolder = line_isFolder line;
                 a = length (heap s);
                 newNode = \<lparr>o_id = gen a, o_name = name,
                            o_type = (if isFolder then Folder else File),
                            o_content = (if isFolder then None else Some (default_content name)),
                            o_children = (if isFolder then Some [] else None),
                            o_parent = None\<rparr>;
                 h1 = heap s @ [newNode];
                 stack1 = pop_frames (stack s) depth;
                 (h2, result2) =
                    (if stack1 = [] then (h1, result s @ [a])
                     else
                       let p = fst (last stack1) in
                       (case o_children (h1 ! p) of
                          Some cs \<Rightarrow>
                            (h1[p := (h1 ! p)\<lparr>o_children := Some (cs @ [a])\<rparr>,
                                a := newNode\<lparr>o_parent := Some (o_id (h1 ! p))\<rparr>],
                             result s)
                        | None \<Rightarrow> (h1, result s)));
                 stack2 = (if isFolder then stack1 @ [(a, depth)] else stack1)
             in \<lparr>heap = h2, result = result2, stack = stack2\<rparr>)"

text \<open>\<open>text.split('\n').filter(line => line.trim())\<close>: the lines that are not blank.\<close>

definition text_lines :: "jsstring \<Rightarrow> jsstring list" where
  "text_lines text = filter (\<lambda>line. str_trim line \<noteq> []) (str_split text LF)"

definition parse_lines :: "(nat \<Rightarrow> jsstring) \<Rightarrow> jsstring list \<Rightarrow> parse_state" where
  "parse_lines gen ls = foldl (process_line gen) init_state ls"

text \<open>\<open>parseStructure\<close> returns \<open>result\<close>: the root addresses, with the store they point into.\<close>

definition parseStructure :: "(nat \<Rightarrow> jsstring) \<Rightarrow> jsstring \<Rightarrow> node_obj list \<times> addr list" where
  "parseStructure gen text =
     (let s = parse_lines gen (text_lines text) in (heap s, result s))"

subsection \<open>Reading a forest out of the store\<close>

text \<open>
  The forest that a list of root addresses denotes, as every reader of the returned array
  sees it by following \<open>children\<close>. The walk is bounded by \<open>fuel\<close>: \<open>None\<close> is a walk that
  meets a dangling address or does not end within the bound (a cyclic store).
\<close>

fun tree_of :: "nat \<Rightarrow> node_obj list \<Rightarrow> addr \<Rightarrow> FileNode option" where
  "tree_of 0 h a = None"
| "tree_of (Suc fuel) h a =
     (if a < length h then
        (case o_children (h ! a) of
           None \<Rightarrow>
             Some (FileNode (o_id (h ! a)) (o_name (h ! a)) (o_type (h ! a)) (o_content (h ! a))
                     None (o_parent (h ! a)))
         | Some cs \<Rightarrow>
             (case those (map (tree_of fuel h) cs) of
                None \<Rightarrow> None
              | Some ts \<Rightarrow>
                  Some (FileNode (o_id (h ! a)) (o_name (h ! a)) (o_type (h ! a))
                          (o_content (h ! a)) (Some ts) (o_parent (h ! a)))))
      else None)"

definition forest_of :: "node_obj list \<times> addr list \<Rightarrow> FileNode list option" where
  "forest_of hr = those (map (tree_of (length (fst hr)) (fst hr)) (snd hr))"

subsection \<open>Notions for stating the parser's properties\<close>

text \<open>A line that yields a node: not skipped as a root label, and with a name.\<close>

definition kept :: "jsstring \<Rightarrow> bool" where
  "kept line \<longleftrightarrow> \<not> is_root_label line \<and> line_name line \<noteq> []"

text \<open>The object \<open>newNode\<close> as the loop body creates it for a line, at address \<open>a\<close>.\<close>

definition fresh_node :: "(nat \<Rightarrow> jsstring) \<Rightarrow> addr \<Rightarrow> jsstring \<Rightarrow> node_obj" where
  "fresh_node gen a line =
     \<lparr>o_id = gen a, o_name = line_name line,
      o_type = (if line_isFolder line then Folder else File),
      o_content = (if line_isFolder line then None else Some (default_content (line_name line))),
      o_children = (if line_isFolder line then Some [] else None),
      o_parent = None\<rparr>"

definition push_frame :: "(addr \<times> rat) list \<Rightarrow> addr \<Rightarrow> jsstring \<Rightarrow> (addr \<times> rat) list" where
  "push_frame stk a line = (if line_isFolder line then stk @ [(a, line_depth line)] else stk)"

text \<open>The children of an object, none for a file.\<close>

definition kids :: "node_obj \<Rightarrow> addr list" where
  "kids ob = (case o_children ob of Some cs \<Rightarrow> cs | None \<Rightarrow> [])"

text \<open>
  The invariant of the loop, after the lines \<open>ls\<close>, in five parts. The store holds one
  object per kept line, in order, each with the fields its line gives it, and with
  \<open>children\<close> exactly when the line is a folder.
\<close>

definition inv_nodes :: "(nat \<Rightarrow> jsstring) \<Rightarrow> jsstring list \<Rightarrow> node_obj list \<Rightarrow> bool" where
  "inv_nodes gen kl h \<longleftrightarrow>
     length h = length kl
   \<and> (\<forall>a < length h.
        \<exists>cs par. h ! a = (fresh_node gen a (kl ! a))\<lparr>o_children := cs, o_parent := par\<rparr>
                \<and> (cs = None \<longleftrightarrow> \<not> line_isFolder (kl ! a)))"

text \<open>The roots are allocated and have no \<open>parent\<close>.\<close>

definition inv_roots :: "node_obj list \<Rightarrow> addr list \<Rightarrow> bool" where
  "inv_roots h r \<longleftrightarrow> (\<forall>a \<in> set r. a < length h \<and> o_parent (h ! a) = None)"

text \<open>
  A child is allocated, after its parent; it carries its parent's id, and its line is
  strictly deeper than its parent's.
\<close>

definition inv_kids :: "(nat \<Rightarrow> jsstring) \<Rightarrow> jsstring list \<Rightarrow> node_obj list \<Rightarrow> bool" where
  "inv_kids gen kl h \<longleftrightarrow>
     (\<forall>p < length h. \<forall>c \<in> set (kids (h ! p)).
        p < c \<and> c < length h \<and> o_parent (h ! c) = Some (gen p)
        \<and> line_depth (kl ! p) < line_depth (kl ! c))"

text \<open>
  The frames refer to allocated folders, each with the depth of its line, and the depths
  increase strictly from the bottom of the stack to its top.
\<close>

definition inv_frames :: "jsstring list \<Rightarrow> node_obj list \<Rightarrow> (addr \<times> rat) list \<Rightarrow> bool" where
  "inv_frames kl h stk \<longleftrightarrow>
     (\<forall>f \<in> set stk. fst f < length h \<and> line_isFolder (kl ! fst f)
                     \<and> snd f = line_depth (kl ! fst f))
   \<and> sorted_wrt (<) (map snd stk)"

text \<open>Every allocated address is a root or a child, exactly once.\<close>

definition inv_once :: "node_obj list \<Rightarrow> addr list \<Rightarrow> bool" where
  "inv_once h r \<longleftrightarrow> mset r + mset (concat (map kids h)) = mset [0..<length h]"

definition parse_inv :: "(nat \<Rightarrow> jsstring) \<Rightarrow> jsstring list \<Rightarrow> parse_state \<Rightarrow> bool" where
  "parse_inv gen ls s \<longleftrightarrow>
     inv_nodes gen (filter kept ls) (heap s)
   \<and> inv_roots (heap s) (result s)
   \<and> inv_kids gen (filter kept ls) (heap s)
   \<and> inv_frames (filter kept ls) (heap s) (stack s)
   \<and> inv_once (heap s) (result s)"

text \<open>
  The tree at an address of a store that the walk reads with the fuel of the store's size.
\<close>

definition node_at :: "node_obj list \<Rightarrow> addr \<Rightarrow> FileNode" where
  "node_at h a = the (tree_of (length h) h a)"

text \<open>The fields of a node beside its links, and the same fields as a line gives them.\<close>

definition node_fields :: "FileNode \<Rightarrow> jsstring \<times> jsstring \<times> node_type \<times> jsstring option" where
  "node_fields n = (id n, name n, type n, content n)"

definition line_fields ::
  "(nat \<Rightarrow> jsstring) \<Rightarrow> addr \<Rightarrow> jsstring \<Rightarrow> jsstring \<times> jsstring \<times> node_type \<times> jsstring option" where
  "line_fields gen a line =
     (gen a, line_name line, (if line_isFolder line then Folder else File),
      (if line_isFolder line then None else Some (default_content (line_name line))))"

subsection \<open>Sample inputs\<close>

text \<open>Ids of the shape the program draws: thirteen digits and nine characters in base 36.\<close>

definition sample_ids :: "nat \<Rightarrow> jsstring" where
  "sample_ids k = ascii ''1762163700000k3j9x2m'' @ [of_nat (48 + k mod 10)]"

text \<open>
  The listing of the depth-inference example:
  \<^verbatim>\<open>app/\<close>, \<^verbatim>\<open>|-- main.py\<close>, \<^verbatim>\<open>`-- sub/\<close>, \<^verbatim>\<open>    `-- deep.py\<close> with the box-drawing glyphs.
\<close>

definition depth_listing :: jsstring where
  "depth_listing =
     ascii ''app/'' @ [LF]
     @ [BOX_TEE, BOX_HORIZ, BOX_HORIZ] @ ascii '' main.py'' @ [LF]
     @ [BOX_ELBOW, BOX_HORIZ, BOX_HORIZ] @ ascii '' sub/'' @ [LF]
     @ ascii ''    '' @ [BOX_ELBOW, BOX_HORIZ, BOX_HORIZ] @ ascii '' deep.py''"

text \<open>A file line indented by two spaces.\<close>

definition half_indented :: jsstring where
  "half_indented = ascii ''  a.py''"

text \<open>The four lines of the depth-inference listing.\<close>

definition line_app :: jsstring where "line_app = ascii ''app/''"
definition line_main :: jsstring where
  "line_main = [BOX_TEE, BOX_HORIZ, BOX_HORIZ] @ ascii '' main.py''"
definition line_sub :: jsstring where
  "line_sub = [BOX_ELBOW, BOX_HORIZ, BOX_HORIZ] @ ascii '' sub/''"
definition line_deep :: jsstring where
  "line_deep = ascii ''    '' @ [BOX_ELBOW, BOX_HORIZ, BOX_HORIZ] @ ascii '' deep.py''"

text \<open>The line of a folder nested under a folder that is not the last of its level.\<close>

definition nested_folder_line :: jsstring where
  "nested_folder_line =
     [BOX_VERT] @ ascii ''   '' @ [BOX_TEE, BOX_HORIZ, BOX_HORIZ] @ ascii '' utils/''"







section \<open>The JSON export (\<open>ExportPanel.downloadAsJson\<close>) and reading it back\<close>

text \<open>
  The values of JSON that the export can hold. A forest has no number in it, so the type
  has none, and \<open>JSON_parse\<close> below has no case for a number literal: on a document with a
  number it gives \<open>None\<close>, which is outside what is modelled here.
\<close>

datatype json = JNull | JBool bool | JString jsstring | JArray "json list"
  | JObject "(jsstring \<times> json) list"

subsection \<open>\<open>JSON.stringify(fileTree, null, 2)\<close>\<close>

text \<open>
  The object of a node as \<open>JSON.stringify\<close> sees it: its own properties in the order of
  their creation (\<open>id\<close>, \<open>name\<close>, \<open>type\<close>, \<open>content\<close>, \<open>children\<close> from the object literal,
  \<open>parent\<close> assigned afterwards), a property whose value is \<open>undefined\<close> left out.
\<close>

definition type_name :: "node_type \<Rightarrow> jsstring" where
  "type_name t = (case t of File \<Rightarrow> ascii ''file'' | Folder \<Rightarrow> ascii ''folder'')"

fun node_json :: "FileNode \<Rightarrow> json" where
  "node_json (FileNode i n t c ch p) =
     JObject ([(ascii ''id'', JString i), (ascii ''name'', JString n),
               (ascii ''type'', JString (type_name t))]
              @ (case c of Some s \<Rightarrow> [(ascii ''content'', JString s)] | None \<Rightarrow> [])
              @ (case ch of Some cs \<Rightarrow> [(ascii ''children'', JArray (map node_json cs))] | None \<Rightarrow> [])
              @ (case p of Some q \<Rightarrow> [(ascii ''parent'', JString q)] | None \<Rightarrow> []))"

definition forest_json :: "FileNode list \<Rightarrow> json" where
  "forest_json forest = JArray (map node_json forest)"

text \<open>
  \<open>QuoteJSONString\<close>: the short escapes, a backslash with \<open>u\<close> and four lower-case hex
  digits for the other code units below \<open>0x20\<close> and for an unpaired surrogate, every other
  code unit as it is.
\<close>

definition hex_digit :: "nat \<Rightarrow> jschar" where
  "hex_digit d = (if d < 10 then of_nat (48 + d) else of_nat (87 + d))"

definition hex4 :: "jschar \<Rightarrow> jsstring" where
  "hex4 c = [hex_digit (unat c div 4096 mod 16), hex_digit (unat c div 256 mod 16),
             hex_digit (unat c div 16 mod 16), hex_digit (unat c mod 16)]"

definition escape_unit :: "jschar \<Rightarrow> jsstring" where
  "escape_unit c =
     (if c = 0x08 then [0x5C, 0x62]
      else if c = 0x09 then [0x5C, 0x74]
      else if c = 0x0A then [0x5C, 0x6E]
      else if c = 0x0C then [0x5C, 0x66]
      else if c = 0x0D then [0x5C, 0x72]
      else if c = 0x22 then [0x5C, 0x22]
      else if c = 0x5C then [0x5C, 0x5C]
      else if c < 0x20 \<or> is_high_surrogate c \<or> is_low_surrogate c then [0x5C, 0x75] @ hex4 c
      else [c])"

fun quote_body :: "jsstring \<Rightarrow> jsstring" where
  "quote_body [] = []"
| "quote_body [c] = escape_unit c"
| "quote_body (c # d # s) =
     (if is_high_surrogate c \<and> is_low_surrogate d then c # d # quote_body s
      else escape_unit c @ quote_body (d # s))"

definition quote :: "jsstring \<Rightarrow> jsstring" where
  "quote s = [QUOTE] @ quote_body s @ [QUOTE]"

text \<open>
  With the gap of two spaces: the items of a non-empty array or object each on a line of
  their own, indented two more than the line of the closing bracket; \<open>": "\<close> after a key;
  \<open>[]\<close> and \<open>{}\<close> when empty.
\<close>

definition newline_indent :: "nat \<Rightarrow> jsstring" where
  "newline_indent ind = LF # replicate ind SPACE"

fun stringify :: "nat \<Rightarrow> json \<Rightarrow> jsstring"
  and stringify_items :: "nat \<Rightarrow> json list \<Rightarrow> jsstring"
  and stringify_props :: "nat \<Rightarrow> (jsstring \<times> json) list \<Rightarrow> jsstring" where
  "stringify ind JNull = ascii ''null''"
| "stringify ind (JBool b) = (if b then ascii ''true'' else ascii ''false'')"
| "stringify ind (JString s) = quote s"
| "stringify ind (JArray []) = ascii ''[]''"
| "stringify ind (JArray (x # xs)) =
     ascii ''['' @ newline_indent (ind + 2) @ stringify_items (ind + 2) (x # xs)
     @ newline_indent ind @ ascii '']''"
| "stringify ind (JObject []) = ascii ''{}''"
| "stringify ind (JObject (m # ms)) =
     ascii ''{'' @ newline_indent (ind + 2) @ stringify_props (ind + 2) (m # ms)
     @ newline_indent ind @ ascii ''}''"
| "stringify_items ind [] = []"
| "stringify_items ind [x] = stringify ind x"
| "stringify_items ind (x # y # ys) =
     stringify ind x @ ascii '','' @ newline_indent ind @ stringify_items ind (y # ys)"
| "stringify_props ind [] = []"
| "stringify_props ind [(k, v)] = quote k @ ascii '': '' @ stringify ind v"
| "stringify_props ind ((k, v) # m # ms) =
     quote k @ ascii '': '' @ stringify ind v @ ascii '','' @ newline_indent ind
     @ stringify_props ind (m # ms)"

text \<open>
  \<open>const structure = JSON.stringify(fileTree, null, 2)\<close>, and \<open>downloadAsJson\<close>, which
  returns without a document when \<open>validateProjectStructure\<close> finds the forest empty.
\<close>

definition structure_json :: "FileNode list \<Rightarrow> jsstring" where
  "structure_json forest = stringify 0 (forest_json forest)"

definition downloadAsJson :: "FileNode list \<Rightarrow> jsstring option" where
  "downloadAsJson forest = (if length forest = 0 then None else Some (structure_json forest))"


subsection \<open>\<open>JSON.parse\<close>\<close>

text \<open>
  A recursive-descent reader of the JSON grammar: white space is space, tab, line feed and
  carriage return; a string is read up to its closing quote with the escapes of the
  grammar; the recursion on nested values is bounded by \<open>fuel\<close>, and \<open>JSON_parse\<close> gives it
  the length of the document. \<open>None\<close> is a \<open>SyntaxError\<close> (or fuel spent).
\<close>

definition is_json_ws :: "jschar \<Rightarrow> bool" where
  "is_json_ws c \<longleftrightarrow> c = 0x20 \<or> c = 0x09 \<or> c = 0x0A \<or> c = 0x0D"

definition skip_ws :: "jsstring \<Rightarrow> jsstring" where
  "skip_ws s = dropWhile is_json_ws s"

definition unhex_digit :: "jschar \<Rightarrow> nat option" where
  "unhex_digit c =
     (if 0x30 \<le> c \<and> c \<le> 0x39 then Some (unat c - 48)
      else if 0x61 \<le> c \<and> c \<le> 0x66 then Some (unat c - 87)
      else if 0x41 \<le> c \<and> c \<le> 0x46 then Some (unat c - 55)
      else None)"

definition unhex4 :: "jschar \<Rightarrow> jschar \<Rightarrow> jschar \<Rightarrow> jschar \<Rightarrow> jschar option" where
  "unhex4 a b c d =
     (case (unhex_digit a, unhex_digit b, unhex_digit c, unhex_digit d) of
        (Some w, Some x, Some y, Some z) \<Rightarrow> Some (of_nat (((w * 16 + x) * 16 + y) * 16 + z))
      | _ \<Rightarrow> None)"

definition simple_escape :: "jschar \<Rightarrow> jschar option" where
  "simple_escape e =
     (if e = 0x22 then Some 0x22
      else if e = 0x5C then Some 0x5C
      else if e = 0x2F then Some 0x2F
      else if e = 0x62 then Some 0x08
      else if e = 0x66 then Some 0x0C
      else if e = 0x6E then Some 0x0A
      else if e = 0x72 then Some 0x0D
      else if e = 0x74 then Some 0x09
      else None)"

definition consume :: "jschar \<Rightarrow> (jsstring \<times> jsstring) option \<Rightarrow> (jsstring \<times> jsstring) option" where
  "consume c r = (case r of None \<Rightarrow> None | Some (t, rest) \<Rightarrow> Some (c # t, rest))"

fun parse_string :: "jsstring \<Rightarrow> (jsstring \<times> jsstring) option" where
  "parse_string [] = None"
| "parse_string (c # s) =
     (if c = 0x22 then Some ([], s)
      else if c = 0x5C then
        (case s of
           [] \<Rightarrow> None
         | e # r \<Rightarrow>
             if e = 0x75 then
               (case r of
                  h1 # h2 # h3 # h4 # r' \<Rightarrow>
                    (case unhex4 h1 h2 h3 h4 of
                       None \<Rightarrow> None
                     | Some u \<Rightarrow> consume u (parse_string r'))
                | _ \<Rightarrow> None)
             else
               (case simple_escape e of
                  None \<Rightarrow> None
                | Some u \<Rightarrow> consume u (parse_string r)))
      else if c < 0x20 then None
      else consume c (parse_string s))"

fun parse_value :: "nat \<Rightarrow> jsstring \<Rightarrow> (json \<times> jsstring) option"
  and parse_elements :: "nat \<Rightarrow> jsstring \<Rightarrow> (json list \<times> jsstring) option"
  and parse_members :: "nat \<Rightarrow> jsstring \<Rightarrow> ((jsstring \<times> json) list \<times> jsstring) option" where
  "parse_value 0 s = None"
| "parse_value (Suc fuel) s =
     (case skip_ws s of
        [] \<Rightarrow> None
      | c # r \<Rightarrow>
          if c = 0x22 then
            (case parse_string r of None \<Rightarrow> None | Some (t, rest) \<Rightarrow> Some (JString t, rest))
          else if c = 0x5B then
            (case skip_ws r of
               [] \<Rightarrow> None
             | d # r' \<Rightarrow>
                 if d = 0x5D then Some (JArray [], r')
                 else (case parse_elements fuel r of
                         None \<Rightarrow> None
                       | Some (xs, rest) \<Rightarrow> Some (JArray xs, rest)))
          else if c = 0x7B then
            (case skip_ws r of
               [] \<Rightarrow> None
             | d # r' \<Rightarrow>
                 if d = 0x7D then Some (JObject [], r')
                 else (case parse_members fuel r of
                         None \<Rightarrow> None
                       | Some (ms, rest) \<Rightarrow> Some (JObject ms, rest)))
          else if str_startsWith (c # r) (ascii ''null'') then Some (JNull, drop 4 (c # r))
          else if str_startsWith (c # r) (ascii ''true'') then Some (JBool True, drop 4 (c # r))
          else if str_startsWith (c # r) (ascii ''false'') then Some (JBool False, drop 5 (c # r))
          else None)"
| "parse_elements 0 s = None"
| "parse_elements (Suc fuel) s =
     (case parse_value fuel s of
        None \<Rightarrow> None
      | Some (x, r) \<Rightarrow>
          (case skip_ws r of
             [] \<Rightarrow> None
           | c # r' \<Rightarrow>
               if c = 0x5D then Some ([x], r')
               else if c = 0x2C then
                 (case parse_elements fuel r' of
                    None \<Rightarrow> None
                  | Some (xs, rest) \<Rightarrow> Some (x # xs, rest))
               else None))"
| "parse_members 0 s = None"
| "parse_members (Suc fuel) s =
     (case skip_ws s of
        [] \<Rightarrow> None
      | q # r \<Rightarrow>
          if q \<noteq> 0x22 then None
          else
            (case parse_string r of
               None \<Rightarrow> None
             | Some (k, r1) \<Rightarrow>
                 (case skip_ws r1 of
                    [] \<Rightarrow> None
                  | c # r2 \<Rightarrow>
                      if c \<noteq> 0x3A then None
                      else
                        (case parse_value fuel r2 of
                           None \<Rightarrow> None
                         | Some (v, r3) \<Rightarrow>
                             (case skip_ws r3 of
                                [] \<Rightarrow> None
                              | d # r4 \<Rightarrow>
                                  if d = 0x7D then Some ([(k, v)], r4)
                                  else if d = 0x2C then
                                    (case parse_members fuel r4 of
                                       None \<Rightarrow> None
                                     | Some (ms, rest) \<Rightarrow> Some ((k, v) # ms, rest))
                                  else None)))))"

definition JSON_parse :: "jsstring \<Rightarrow> json option" where
  "JSON_parse s =
     (case parse_value (length s) s of
        None \<Rightarrow> None
      | Some (v, rest) \<Rightarrow> if skip_ws rest = [] then Some v else None)"

subsection \<open>The forest a JSON value denotes\<close>

text \<open>
  Reading the parsed value as a \<open>FileNode[]\<close>: an absent property and \<open>undefined\<close> are the
  same \<open>None\<close> of the node.
\<close>

text \<open>The property of an object by name; of a repeated name the last one counts.\<close>

definition field :: "(jsstring \<times> json) list \<Rightarrow> jsstring \<Rightarrow> json option" where
  "field ms k = map_of (rev ms) k"

definition type_of_name :: "jsstring \<Rightarrow> node_type option" where
  "type_of_name t =
     (if t = ascii ''file'' then Some File else if t = ascii ''folder'' then Some Folder else None)"

text \<open>An optional string property: absent, or a string.\<close>

definition opt_string :: "json option \<Rightarrow> jsstring option option" where
  "opt_string v = (case v of None \<Rightarrow> Some None | Some (JString s) \<Rightarrow> Some (Some s) | _ \<Rightarrow> None)"

lemma field_size:
  assumes f: "field ms k = Some (JArray xs)" and x: "x \<in> set xs"
  shows "size x < size (JObject ms)"
proof -
  from f have "(k, JArray xs) \<in> set ms"
    unfolding field_def by (metis map_of_SomeD set_rev)
  then have "size_prod (\<lambda>x. 0) size (k, JArray xs) \<le> size_list (size_prod (\<lambda>x. 0) size) ms"
    by (rule size_list_estimation') simp
  moreover from x have "size x \<le> size_list size xs" by (rule size_list_estimation') simp
  ultimately show ?thesis by simp
qed

function (sequential) json_node :: "json \<Rightarrow> FileNode option" where
  "json_node (JObject ms) =
     (case (field ms (ascii ''id''), field ms (ascii ''name''), field ms (ascii ''type'')) of
        (Some (JString i), Some (JString n), Some (JString t)) \<Rightarrow>
          (case (type_of_name t, opt_string (field ms (ascii ''content'')),
                 opt_string (field ms (ascii ''parent''))) of
             (Some ty, Some c, Some p) \<Rightarrow>
               (case field ms (ascii ''children'') of
                  None \<Rightarrow> Some (FileNode i n ty c None p)
                | Some (JArray xs) \<Rightarrow>
                    (case those (map json_node xs) of
                       None \<Rightarrow> None
                     | Some cs \<Rightarrow> Some (FileNode i n ty c (Some cs) p))
                | _ \<Rightarrow> None)
           | _ \<Rightarrow> None)
      | _ \<Rightarrow> None)"
| "json_node _ = None"
  by pat_completeness auto
termination
  apply (relation "measure size")
   apply simp
  apply (auto dest: field_size)
  done

definition json_forest :: "json \<Rightarrow> FileNode list option" where
  "json_forest v = (case v of JArray xs \<Rightarrow> those (map json_node xs) | _ \<Rightarrow> None)"

definition read_back :: "jsstring \<Rightarrow> FileNode list option" where
  "read_back doc = (case JSON_parse doc of None \<Rightarrow> None | Some v \<Rightarrow> json_forest v)"

subsection \<open>Notions for the round trip\<close>

text \<open>
  The fuel that reading a value back takes at most, strings of white space only, and the
  code units a serialized value can start with.
\<close>

fun cost :: "json \<Rightarrow> nat"
  and cost_items :: "json list \<Rightarrow> nat"
  and cost_props :: "(jsstring \<times> json) list \<Rightarrow> nat" where
  "cost JNull = 1"
| "cost (JBool b) = 1"
| "cost (JString s) = 1"
| "cost (JArray xs) = 1 + cost_items xs"
| "cost (JObject ms) = 1 + cost_props ms"
| "cost_items [] = 0"
| "cost_items (x # xs) = 1 + cost x + cost_items xs"
| "cost_props [] = 0"
| "cost_props ((k, v) # ms) = 1 + cost v + cost_props ms"

definition ws :: "jsstring \<Rightarrow> bool" where
  "ws w \<longleftrightarrow> list_all is_json_ws w"

definition value_head :: "jschar \<Rightarrow> bool" where
  "value_head c \<longleftrightarrow> c = 0x22 \<or> c = 0x5B \<or> c = 0x7B \<or> c = 0x6E \<or> c = 0x74 \<or> c = 0x66"

text \<open>
  A folder holding one file whose content ends with a line feed and a quote, and the
  document that \<open>JSON.stringify\<close> prints for it.
\<close>

definition sample_tree :: "FileNode list" where
  "sample_tree =
     [FileNode (ascii ''1'') (ascii ''src'') Folder None
        (Some [FileNode (ascii ''2'') (ascii ''a.py'') File (Some (ascii ''x'' @ [LF, QUOTE])) None
                 (Some (ascii ''1''))]) None]"

definition sample_document :: jsstring where
  "sample_document =
     ascii ''['' @ [LF]
     @ ascii ''  {'' @ [LF]
     @ ascii ''    '' @ [QUOTE] @ ascii ''id'' @ [QUOTE] @ ascii '': '' @ [QUOTE] @ ascii ''1'' @ [QUOTE] @ ascii '','' @ [LF]
     @ ascii ''    '' @ [QUOTE] @ ascii ''name'' @ [QUOTE] @ ascii '': '' @ [QUOTE] @ ascii ''src'' @ [QUOTE] @ ascii '','' @ [LF]
     @ ascii ''    '' @ [QUOTE] @ ascii ''type'' @ [QUOTE] @ ascii '': '' @ [QUOTE] @ ascii ''folder'' @ [QUOTE] @ ascii '','' @ [LF]
     @ ascii ''    '' @ [QUOTE] @ ascii ''children'' @ [QUOTE] @ ascii '': ['' @ [LF]
     @ ascii ''      {'' @ [LF]
     @ ascii ''        '' @ [QUOTE] @ ascii ''id'' @ [QUOTE] @ ascii '': '' @ [QUOTE] @ ascii ''2'' @ [QUOTE] @ ascii '','' @ [LF]
     @ ascii ''        '' @ [QUOTE] @ ascii ''name'' @ [QUOTE] @ ascii '': '' @ [QUOTE] @ ascii ''a.py'' @ [QUOTE] @ ascii '','' @ [LF]
     @ ascii ''        '' @ [QUOTE] @ ascii ''type'' @ [QUOTE] @ ascii '': '' @ [QUOTE] @ ascii ''file'' @ [QUOTE] @ ascii '','' @ [LF]
     @ ascii ''        '' @ [QUOTE] @ ascii ''content'' @ [QUOTE] @ ascii '': '' @ [QUOTE] @ ascii ''x'' @ [0x5C] @ ascii ''n'' @ [0x5C, QUOTE] @ [QUOTE] @ ascii '','' @ [LF]
     @ ascii ''        '' @ [QUOTE] @ ascii ''parent'' @ [QUOTE] @ ascii '': '' @ [QUOTE] @ ascii ''1'' @ [QUOTE] @ [LF]
     @ ascii ''      }'' @ [LF]
     @ ascii ''    ]'' @ [LF]
     @ ascii ''  }'' @ [LF]
     @ ascii '']''"

section \<open>Deletion\<close>

lemma filterNodes_no_id:
  "n \<in> set (all_nodes (filterNodes itemId nodes)) \<Longrightarrow> id n \<noteq> itemId"
proof (induction itemId nodes arbitrary: n rule: filterNodes.induct)
  case (1 itemId nodes)
  from "1.prems" obtain x where x: "x \<in> set nodes" "id x \<noteq> itemId"
    and n: "n = FileNode (id x) (name x) (type x) (content x)
                 (case children x of Some cs \<Rightarrow> Some (filterNodes itemId cs) | None \<Rightarrow> None)
                 (parent x)
            \<or> (\<exists>cs. children x = Some cs \<and> n \<in> set (all_nodes (filterNodes itemId cs)))"
    by (subst (asm) filterNodes.simps, subst (asm) all_nodes.simps)
       (auto split: option.splits)
  from n show ?case
  proof
    assume "n = FileNode (id x) (name x) (type x) (content x)
                 (case children x of Some cs \<Rightarrow> Some (filterNodes itemId cs) | None \<Rightarrow> None)
                 (parent x)"
    with x show ?thesis by simp
  next
    assume "\<exists>cs. children x = Some cs \<and> n \<in> set (all_nodes (filterNodes itemId cs))"
    then obtain cs where "children x = Some cs" "n \<in> set (all_nodes (filterNodes itemId cs))"
      by blast
    with x "1.IH"[of x cs n] show ?thesis by simp
  qed
qed

lemma all_nodes_top: "x \<in> set nodes \<Longrightarrow> x \<in> set (all_nodes nodes)"
  by (induction nodes) auto

lemma all_nodes_below:
  "x \<in> set nodes \<Longrightarrow> children x = Some cs \<Longrightarrow> set (all_nodes cs) \<subseteq> set (all_nodes nodes)"
  by (induction nodes) auto

lemma filterNodes_absent:
  "itemId \<notin> id ` set (all_nodes nodes) \<Longrightarrow> filterNodes itemId nodes = nodes"
proof (induction itemId nodes rule: filterNodes.induct)
  case (1 itemId nodes)
  have ne: "\<And>x. x \<in> set nodes \<Longrightarrow> id x \<noteq> itemId"
    using "1.prems" all_nodes_top[of _ nodes] by blast
  then have keep: "filter (\<lambda>node. id node \<noteq> itemId) nodes = nodes"
    by (simp add: filter_id_conv)
  have "\<And>x. x \<in> set nodes \<Longrightarrow>
      FileNode (id x) (name x) (type x) (content x)
        (case children x of Some cs \<Rightarrow> Some (filterNodes itemId cs) | None \<Rightarrow> None) (parent x)
      = x"
  proof -
    fix x assume x: "x \<in> set nodes"
    have "(case children x of Some cs \<Rightarrow> Some (filterNodes itemId cs) | None \<Rightarrow> None)
          = children x"
    proof (cases "children x")
      case None
      then show ?thesis by simp
    next
      case (Some cs)
      from all_nodes_below[OF x Some] "1.prems" have "itemId \<notin> id ` set (all_nodes cs)"
        by blast
      with "1.IH"[of x cs] x ne[OF x] Some show ?thesis by simp
    qed
    then show "FileNode (id x) (name x) (type x) (content x)
        (case children x of Some cs \<Rightarrow> Some (filterNodes itemId cs) | None \<Rightarrow> None) (parent x)
      = x"
      by simp
  qed
  then have "map (\<lambda>node. FileNode (id node) (name node) (type node) (content node)
                  (case children node of Some cs \<Rightarrow> Some (filterNodes itemId cs) | None \<Rightarrow> None)
                  (parent node)) nodes = nodes"
    by (simp add: map_idI)
  then show ?case
    by (subst filterNodes.simps) (simp only: keep)
qed

text \<open>
  C8. The forest after deleting an id is the recursive filter of the forest before: the
  nodes of the top level with another id, in their order, each rebuilt with its own fields
  and with its children (when it has any) filtered the same way. No node with the deleted
  id remains at any nesting depth, and a forest that holds no node with that id is left as
  it was. The selection is cleared when its id is the deleted id and is kept otherwise.
\<close>

theorem deleteItem_removes_everywhere:
  "fileTree (deleteItem itemId st) = filterNodes itemId (fileTree st)
   \<and> filterNodes itemId (fileTree st) =
       map (\<lambda>node. FileNode (id node) (name node) (type node) (content node)
                    (map_option (filterNodes itemId) (children node)) (parent node))
           (filter (\<lambda>node. id node \<noteq> itemId) (fileTree st))
   \<and> itemId \<notin> id ` set (all_nodes (fileTree (deleteItem itemId st)))
   \<and> (itemId \<notin> id ` set (all_nodes (fileTree st))
        \<longrightarrow> fileTree (deleteItem itemId st) = fileTree st)
   \<and> selectedFile (deleteItem itemId st) =
       (case selectedFile st of
          None \<Rightarrow> None
        | Some sel \<Rightarrow> if id sel = itemId then None else Some sel)"
proof (intro conjI impI)
  show "fileTree (deleteItem itemId st) = filterNodes itemId (fileTree st)"
    by (simp add: deleteItem_def)
next
  have "\<And>node. (case children node of Some cs \<Rightarrow> Some (filterNodes itemId cs) | None \<Rightarrow> None)
              = map_option (filterNodes itemId) (children node)"
    by (simp split: option.splits)
  then show "filterNodes itemId (fileTree st) =
       map (\<lambda>node. FileNode (id node) (name node) (type node) (content node)
                    (map_option (filterNodes itemId) (children node)) (parent node))
           (filter (\<lambda>node. id node \<noteq> itemId) (fileTree st))"
    by (subst filterNodes.simps) simp
next
  show "itemId \<notin> id ` set (all_nodes (fileTree (deleteItem itemId st)))"
    using filterNodes_no_id[of _ itemId "fileTree st"] by (auto simp: deleteItem_def)
next
  assume "itemId \<notin> id ` set (all_nodes (fileTree st))"
  then show "fileTree (deleteItem itemId st) = fileTree st"
    by (simp add: deleteItem_def filterNodes_absent)
next
  show "selectedFile (deleteItem itemId st) =
       (case selectedFile st of
          None \<Rightarrow> None
        | Some sel \<Rightarrow> if id sel = itemId then None else Some sel)"
    by (simp add: deleteItem_def)
qed

theorem deleteItem_removes_everywhere_witness:
  "selectedFile index_state = Some index_main_py \<and> id index_main_py = ascii ''2''
   \<and> selectedFile (deleteItem (ascii ''2'') index_state) = None
   \<and> ascii ''2'' \<notin> id ` set (all_nodes (fileTree (deleteItem (ascii ''2'') index_state)))
   \<and> fileTree (deleteItem (ascii ''2'') index_state) =
       [FileNode (ascii ''1'') (ascii ''src'') Folder None (Some []) None, index_readme]
   \<and> ascii ''9'' \<notin> id ` set (all_nodes (fileTree index_state))
   \<and> fileTree (deleteItem (ascii ''9'') index_state) = fileTree index_state
   \<and> selectedFile (deleteItem (ascii ''9'') index_state) = Some index_main_py"
  using deleteItem_removes_everywhere[of "ascii ''2''" index_state]
    deleteItem_removes_everywhere[of "ascii ''9''" index_state]
  by (simp add: index_state_def index_main_py_def index_readme_def ascii_def)

section \<open>The empty-folder sentinel\<close>

lemma concat_map_concat:
  "concat (map f (concat xss)) = concat (map (\<lambda>xs. concat (map f xs)) xss)"
  by (induction xss) simp_all

lemma getFilesForHFUpload_emitted:
  "getFilesForHFUpload nodes basePath = concat (map emitted (nodes_with_paths nodes basePath))"
proof (induction nodes basePath rule: getFilesForHFUpload.induct)
  case (1 nodes basePath)
  have "\<And>node. node \<in> set nodes \<Longrightarrow>
     (let fullPath = joinPath basePath (name node) in
       (case type node of
          File \<Rightarrow> [(fullPath, content_or_default node)]
        | Folder \<Rightarrow>
            (case children node of
               Some cs \<Rightarrow> if length cs > 0 then getFilesForHFUpload cs fullPath
                          else [(fullPath @ ascii ''/.gitkeep'', [])]
             | None \<Rightarrow> [(fullPath @ ascii ''/.gitkeep'', [])])))
     = concat (map emitted ((joinPath basePath (name node), node)
       # (case type node of
            File \<Rightarrow> []
          | Folder \<Rightarrow>
              (case children node of
                 Some cs \<Rightarrow> nodes_with_paths cs (joinPath basePath (name node))
               | None \<Rightarrow> []))))"
    using "1.IH"
    by (auto simp: Let_def nodes_with_paths.simps[of "[]"] split: node_type.splits option.splits)
  then show ?case
    by (subst getFilesForHFUpload.simps, subst nodes_with_paths.simps)
       (simp add: concat_map_concat comp_def cong: map_cong)
qed

lemma obj_set_add: "m ++ obj_set ob k v = obj_set (m ++ ob) k v"
  by (simp add: obj_set_def)

lemma foldl_obj_set_add:
  "m ++ foldl (\<lambda>ob (k, v). obj_set ob k v) Map.empty xs = foldl (\<lambda>ob (k, v). obj_set ob k v) m xs"
proof (induction xs rule: rev_induct)
  case Nil
  then show ?case by simp
next
  case (snoc x xs)
  then show ?case by (cases x) (simp add: obj_set_add)
qed

lemma foldl_obj_set_lookup:
  "foldl (\<lambda>ob (k, v). obj_set ob k v) Map.empty xs k
   = (if k = ascii ''__proto__'' then None else map_of (rev xs) k)"
proof (induction xs rule: rev_induct)
  case Nil
  then show ?case by simp
next
  case (snoc x xs)
  then show ?case by (cases x) (auto simp add: obj_set_def)
qed

lemma recorded_paths:
  "concat (map recorded (nodes_with_paths nodes basePath)) =
   concat (map (\<lambda>node.
       recorded (joinPath basePath (name node), node)
       @ (case type node of
            File \<Rightarrow> []
          | Folder \<Rightarrow>
              (case children node of
                 Some cs \<Rightarrow> concat (map recorded (nodes_with_paths cs (joinPath basePath (name node))))
               | None \<Rightarrow> []))) nodes)"
proof -
  have "\<And>x. concat (map recorded
                   (case type x of File \<Rightarrow> []
                    | Folder \<Rightarrow>
                        case children x of None \<Rightarrow> []
                        | Some cs \<Rightarrow> nodes_with_paths cs (joinPath basePath (name x))))
            = (case type x of File \<Rightarrow> []
                 | Folder \<Rightarrow>
                     case children x of None \<Rightarrow> []
                     | Some cs \<Rightarrow>
                         concat (map recorded (nodes_with_paths cs (joinPath basePath (name x)))))"
    by (simp split: node_type.splits option.splits)
  then show ?thesis
    by (subst nodes_with_paths.simps) (simp add: concat_map_concat comp_def)
qed

lemma convert_step:
  assumes "\<And>cs. type f = Folder \<Longrightarrow> children f = Some cs \<Longrightarrow>
      convertFileTreeToGitHubFiles cs (joinPath basePath (name f))
      = foldl (\<lambda>ob (k, v). obj_set ob k v) Map.empty
          (concat (map recorded (nodes_with_paths cs (joinPath basePath (name f)))))"
  shows "(let fullPath = joinPath basePath (name f) in
       (case type f of
          File \<Rightarrow> obj_set acc fullPath (content_or_default f)
        | Folder \<Rightarrow>
            (case children f of
               Some cs \<Rightarrow>
                 let childFiles = convertFileTreeToGitHubFiles cs fullPath;
                     result' = acc ++ childFiles
                 in if length cs = 0 then obj_set result' (fullPath @ ascii ''/.gitkeep'') []
                    else result'
             | None \<Rightarrow> acc)))
     = foldl (\<lambda>ob (k, v). obj_set ob k v) acc
         (recorded (joinPath basePath (name f), f)
          @ (case type f of
               File \<Rightarrow> []
             | Folder \<Rightarrow>
                 (case children f of
                    Some cs \<Rightarrow> concat (map recorded (nodes_with_paths cs (joinPath basePath (name f))))
                  | None \<Rightarrow> [])))"
proof (cases "type f")
  case File
  then show ?thesis by simp
next
  case Folder
  show ?thesis
  proof (cases "children f")
    case None
    with Folder show ?thesis by simp
  next
    case (Some cs)
    show ?thesis
    proof (cases "cs = []")
      case True
      with Folder Some show ?thesis
        by (simp add: convertFileTreeToGitHubFiles.simps[of "[]"] nodes_with_paths.simps[of "[]"])
    next
      case False
      with Folder Some assms[OF Folder Some] show ?thesis
        by (simp add: foldl_obj_set_add)
    qed
  qed
qed

lemma convert_recorded:
  "convertFileTreeToGitHubFiles files basePath
   = foldl (\<lambda>ob (k, v). obj_set ob k v) Map.empty
       (concat (map recorded (nodes_with_paths files basePath)))"
proof (induction files basePath rule: convertFileTreeToGitHubFiles.induct)
  case (1 files basePath)
  have inner: "set fs \<subseteq> set files \<Longrightarrow>
      foldl (\<lambda>result file.
       let fullPath = joinPath basePath (name file) in
       (case type file of
          File \<Rightarrow> obj_set result fullPath (content_or_default file)
        | Folder \<Rightarrow>
            (case children file of
               Some cs \<Rightarrow>
                 let childFiles = convertFileTreeToGitHubFiles cs fullPath;
                     result' = result ++ childFiles
                 in if length cs = 0 then obj_set result' (fullPath @ ascii ''/.gitkeep'') []
                    else result'
             | None \<Rightarrow> result))) acc fs
      = foldl (\<lambda>ob (k, v). obj_set ob k v) acc
         (concat (map (\<lambda>node.
       recorded (joinPath basePath (name node), node)
       @ (case type node of
            File \<Rightarrow> []
          | Folder \<Rightarrow>
              (case children node of
                 Some cs \<Rightarrow> concat (map recorded (nodes_with_paths cs (joinPath basePath (name node))))
               | None \<Rightarrow> []))) fs))" for fs acc
  proof (induction fs arbitrary: acc)
    case Nil
    then show ?case by simp
  next
    case (Cons f fs)
    from Cons.prems have f: "f \<in> set files" and fs: "set fs \<subseteq> set files" by simp_all
    have ih: "\<And>cs. type f = Folder \<Longrightarrow> children f = Some cs \<Longrightarrow>
      convertFileTreeToGitHubFiles cs (joinPath basePath (name f))
      = foldl (\<lambda>ob (k, v). obj_set ob k v) Map.empty
          (concat (map recorded (nodes_with_paths cs (joinPath basePath (name f)))))"
      using "1.IH"[OF f refl] by simp
    show ?case
      unfolding foldl_Cons list.map concat.simps foldl_append
      by (subst Cons.IH[OF fs], subst convert_step[of f basePath acc, OF ih])
        (simp_all only: foldl_append)
  qed
  show ?case
    by (subst convertFileTreeToGitHubFiles.simps, subst recorded_paths) (rule inner, simp)
qed



lemma sentinel_not_proto: "path @ ascii ''/.gitkeep'' \<noteq> ascii ''__proto__''"
proof
  assume "path @ ascii ''/.gitkeep'' = ascii ''__proto__''"
  then have "last (path @ ascii ''/.gitkeep'') = last (ascii ''__proto__'')" by simp
  then show False by (simp add: ascii_def)
qed

lemma map_of_rev_distinct:
  "distinct (map fst xs) \<Longrightarrow> (k, v) \<in> set xs \<Longrightarrow> map_of (rev xs) k = Some v"
  by (rule map_of_is_SomeI) (simp_all add: rev_map[symmetric])

text \<open>
  C6 (amended). The flattened list of \<open>getFilesForHFUpload\<close> is the concatenation, over the
  visited nodes in pre-order, of what each node emits by itself: a folder with an empty
  children sequence emits exactly one entry, its joined path extended by \<open>/.gitkeep\<close> with
  the empty content; a folder with children emits nothing by itself and its flattening is
  the flattening of its children under its joined path. The record of
  \<open>convertFileTreeToGitHubFiles\<close> holds, for each path other than \<open>__proto__\<close>, the last of the
  writes that the visited nodes make in the same order, where an empty folder writes its
  sentinel and a folder with children writes nothing by itself. So the sentinel path of
  every visited empty folder is in the list with empty content and is a key of the record;
  its content in the record is empty when no two writes share a path.
\<close>

theorem empty_folder_sentinel:
  "getFilesForHFUpload nodes basePath = concat (map emitted (nodes_with_paths nodes basePath))
   \<and> convertFileTreeToGitHubFiles nodes basePath k
       = (if k = ascii ''__proto__'' then None
          else map_of (rev (concat (map recorded (nodes_with_paths nodes basePath)))) k)
   \<and> emitted (path, FileNode i n Folder c (Some []) p) = [(path @ ascii ''/.gitkeep'', [])]
   \<and> recorded (path, FileNode i n Folder c (Some []) p) = [(path @ ascii ''/.gitkeep'', [])]
   \<and> getFilesForHFUpload [FileNode i n Folder c (Some []) p] basePath
       = [(joinPath basePath n @ ascii ''/.gitkeep'', [])]
   \<and> convertFileTreeToGitHubFiles [FileNode i n Folder c (Some []) p] basePath
       = [joinPath basePath n @ ascii ''/.gitkeep'' \<mapsto> []]
   \<and> (cs \<noteq> [] \<longrightarrow>
        emitted (path, FileNode i n Folder c (Some cs) p) = []
      \<and> recorded (path, FileNode i n Folder c (Some cs) p) = []
      \<and> getFilesForHFUpload [FileNode i n Folder c (Some cs) p] basePath
          = getFilesForHFUpload cs (joinPath basePath n)
      \<and> convertFileTreeToGitHubFiles [FileNode i n Folder c (Some cs) p] basePath
          = convertFileTreeToGitHubFiles cs (joinPath basePath n))
   \<and> ((path, node) \<in> set (nodes_with_paths nodes basePath) \<and> type node = Folder
        \<and> children node = Some [] \<longrightarrow>
        (path @ ascii ''/.gitkeep'', []) \<in> set (getFilesForHFUpload nodes basePath)
      \<and> convertFileTreeToGitHubFiles nodes basePath (path @ ascii ''/.gitkeep'') \<noteq> None
      \<and> (distinct (map fst (concat (map recorded (nodes_with_paths nodes basePath)))) \<longrightarrow>
          convertFileTreeToGitHubFiles nodes basePath (path @ ascii ''/.gitkeep'') = Some []))"
proof (intro conjI impI)
  show "getFilesForHFUpload nodes basePath
        = concat (map emitted (nodes_with_paths nodes basePath))"
    by (rule getFilesForHFUpload_emitted)
  show "convertFileTreeToGitHubFiles nodes basePath k
       = (if k = ascii ''__proto__'' then None
          else map_of (rev (concat (map recorded (nodes_with_paths nodes basePath)))) k)"
    by (simp only: convert_recorded foldl_obj_set_lookup)
  show "emitted (path, FileNode i n Folder c (Some []) p) = [(path @ ascii ''/.gitkeep'', [])]"
    by simp
  show "recorded (path, FileNode i n Folder c (Some []) p) = [(path @ ascii ''/.gitkeep'', [])]"
    by simp
  show "getFilesForHFUpload [FileNode i n Folder c (Some []) p] basePath
        = [(joinPath basePath n @ ascii ''/.gitkeep'', [])]"
    by (simp add: getFilesForHFUpload.simps[of "[FileNode i n Folder c (Some []) p]"])
  show "convertFileTreeToGitHubFiles [FileNode i n Folder c (Some []) p] basePath
        = [joinPath basePath n @ ascii ''/.gitkeep'' \<mapsto> []]"
    by (simp add: convertFileTreeToGitHubFiles.simps[of "[FileNode i n Folder c (Some []) p]"]
        convertFileTreeToGitHubFiles.simps[of "[]"] obj_set_def ascii_def)
next
  assume cs: "cs \<noteq> []"
  then show "emitted (path, FileNode i n Folder c (Some cs) p) = []"
    by simp
  from cs show "recorded (path, FileNode i n Folder c (Some cs) p) = []"
    by simp
  from cs show "getFilesForHFUpload [FileNode i n Folder c (Some cs) p] basePath
        = getFilesForHFUpload cs (joinPath basePath n)"
    by (simp add: getFilesForHFUpload.simps[of "[FileNode i n Folder c (Some cs) p]"])
  from cs show "convertFileTreeToGitHubFiles [FileNode i n Folder c (Some cs) p] basePath
        = convertFileTreeToGitHubFiles cs (joinPath basePath n)"
    by (simp add: convertFileTreeToGitHubFiles.simps[of "[FileNode i n Folder c (Some cs) p]"])
next
  assume a: "(path, node) \<in> set (nodes_with_paths nodes basePath) \<and> type node = Folder
        \<and> children node = Some []"
  then have e: "emitted (path, node) = [(path @ ascii ''/.gitkeep'', [])]"
    and r: "recorded (path, node) = [(path @ ascii ''/.gitkeep'', [])]"
    by simp_all
  from a e show "(path @ ascii ''/.gitkeep'', []) \<in> set (getFilesForHFUpload nodes basePath)"
    by (subst getFilesForHFUpload_emitted) force
  from a r have mem: "(path @ ascii ''/.gitkeep'', [])
      \<in> set (concat (map recorded (nodes_with_paths nodes basePath)))"
    by force
  then have "path @ ascii ''/.gitkeep''
      \<in> fst ` set (rev (concat (map recorded (nodes_with_paths nodes basePath))))"
    by force
  then have some: "map_of (rev (concat (map recorded (nodes_with_paths nodes basePath))))
      (path @ ascii ''/.gitkeep'') \<noteq> None"
    by (simp only: map_of_eq_None_iff not_not)
  have eq: "convertFileTreeToGitHubFiles nodes basePath (path @ ascii ''/.gitkeep'')
      = map_of (rev (concat (map recorded (nodes_with_paths nodes basePath))))
          (path @ ascii ''/.gitkeep'')"
    by (simp only: convert_recorded foldl_obj_set_lookup sentinel_not_proto if_False)
  from some show "convertFileTreeToGitHubFiles nodes basePath (path @ ascii ''/.gitkeep'') \<noteq> None"
    unfolding eq .
  assume "distinct (map fst (concat (map recorded (nodes_with_paths nodes basePath))))"
  from map_of_rev_distinct[OF this mem]
  show "convertFileTreeToGitHubFiles nodes basePath (path @ ascii ''/.gitkeep'') = Some []"
    unfolding eq .
qed

lemma sample_paths:
  "nodes_with_paths sample_forest [] =
     [(ascii ''src'', hd sample_forest),
      (ascii ''src/empty'',
       FileNode (ascii ''b'') (ascii ''empty'') Folder None (Some []) (Some (ascii ''a''))),
      (ascii ''src/x.py'',
       FileNode (ascii ''c'') (ascii ''x.py'') File (Some (ascii ''pass'')) None
         (Some (ascii ''a'')))]"
  by (simp add: sample_forest_def nodes_with_paths.simps[of "_ # _"] nodes_with_paths.simps[of "[]"]
      joinPath_def ascii_def SLASH_def)

theorem empty_folder_sentinel_witness:
  "the (children (hd sample_forest)) \<noteq> []
   \<and> getFilesForHFUpload sample_forest []
       = [(ascii ''src/empty/.gitkeep'', []), (ascii ''src/x.py'', ascii ''pass'')]
   \<and> emitted (ascii ''src'', hd sample_forest) = []
   \<and> (ascii ''src/empty'',
       FileNode (ascii ''b'') (ascii ''empty'') Folder None (Some []) (Some (ascii ''a'')))
        \<in> set (nodes_with_paths sample_forest [])
   \<and> distinct (map fst (concat (map recorded (nodes_with_paths sample_forest []))))
   \<and> convertFileTreeToGitHubFiles sample_forest [] (ascii ''src/empty'' @ ascii ''/.gitkeep'')
       = Some []"
proof -
  have cs: "the (children (hd sample_forest)) \<noteq> []"
    by (simp add: sample_forest_def)
  have h: "FileNode (ascii ''a'') (ascii ''src'') Folder None
             (Some (the (children (hd sample_forest)))) None = hd sample_forest"
    by (simp add: sample_forest_def)
  have m: "(ascii ''src/empty'',
       FileNode (ascii ''b'') (ascii ''empty'') Folder None (Some []) (Some (ascii ''a'')))
        \<in> set (nodes_with_paths sample_forest [])"
    by (simp add: sample_paths)
  have d: "distinct (map fst (concat (map recorded (nodes_with_paths sample_forest []))))"
    by (simp add: sample_paths) (simp add: sample_forest_def ascii_def)
  have l: "concat (map emitted (nodes_with_paths sample_forest []))
       = [(ascii ''src/empty/.gitkeep'', []), (ascii ''src/x.py'', ascii ''pass'')]"
    by (simp add: sample_paths) (simp add: sample_forest_def content_or_default_def ascii_def)
  note a = empty_folder_sentinel[of sample_forest "[]" "ascii ''src/x.py''" "ascii ''src''"
      "ascii ''a''" "ascii ''src''" None None "the (children (hd sample_forest))"
      "FileNode (ascii ''b'') (ascii ''empty'') Folder None (Some []) (Some (ascii ''a''))"]
  note b = empty_folder_sentinel[of sample_forest "[]" "ascii ''src/x.py''" "ascii ''src/empty''"
      "ascii ''a''" "ascii ''src''" None None "the (children (hd sample_forest))"
      "FileNode (ascii ''b'') (ascii ''empty'') Folder None (Some []) (Some (ascii ''a''))"]
  from a cs have 1: "emitted (ascii ''src'', hd sample_forest) = []"
    unfolding h by blast
  from a have 2: "getFilesForHFUpload sample_forest []
       = [(ascii ''src/empty/.gitkeep'', []), (ascii ''src/x.py'', ascii ''pass'')]"
    unfolding l by blast
  have "type (FileNode (ascii ''b'') (ascii ''empty'') Folder None (Some []) (Some (ascii ''a'')))
          = Folder"
    "children (FileNode (ascii ''b'') (ascii ''empty'') Folder None (Some []) (Some (ascii ''a'')))
          = Some []"
    by simp_all
  with b m d have 3: "convertFileTreeToGitHubFiles sample_forest []
       (ascii ''src/empty'' @ ascii ''/.gitkeep'') = Some []"
    by blast
  from cs 1 2 3 m d show ?thesis by blast
qed

text \<open>
  The claim as written fails for the path record where two folders of one name lie side by
  side, the first empty and the second holding a file \<open>.gitkeep\<close>: the record has one entry
  for the path \<open>a/.gitkeep\<close> and its content is that of the file.
\<close>

theorem empty_folder_sentinel_counterexample:
  "type (hd colliding_forest) = Folder \<and> children (hd colliding_forest) = Some []
   \<and> (ascii ''a'', hd colliding_forest) \<in> set (nodes_with_paths colliding_forest [])
   \<and> convertFileTreeToGitHubFiles colliding_forest [] = [ascii ''a/.gitkeep'' \<mapsto> ascii ''x'']
   \<and> convertFileTreeToGitHubFiles colliding_forest [] (ascii ''a/.gitkeep'') \<noteq> Some []
   \<and> getFilesForHFUpload colliding_forest []
       = [(ascii ''a/.gitkeep'', []), (ascii ''a/.gitkeep'', ascii ''x'')]"
  by (simp add: colliding_forest_def nodes_with_paths.simps[of "_ # _"]
      nodes_with_paths.simps[of "[]"] convertFileTreeToGitHubFiles.simps[of "_ # _"]
      convertFileTreeToGitHubFiles.simps[of "[]"] getFilesForHFUpload.simps[of "_ # _"]
      getFilesForHFUpload.simps[of "[]"] obj_set_def joinPath_def content_or_default_def
      ascii_def SLASH_def)

section \<open>The bounded retry loop\<close>

lemma not_foundD: "not_found r \<Longrightarrow> \<exists>e. r = Response 404 e"
  by (cases r) auto

lemma upload_loop_all_not_found:
  "well_formed body \<Longrightarrow> t < tries \<Longrightarrow>
   (\<forall>u. t \<le> u \<and> u < tries \<longrightarrow> not_found (server u)) \<Longrightarrow>
   upload_loop server path body tries t delay lastErr slept =
     \<lparr>attempts = tries, sleeps = slept @ backoff (tries - 1 - t) delay,
      outcome = Thrown (raise_upload_error path (Some (server (tries - 1))))\<rparr>"
proof (induction server path body tries t delay lastErr slept rule: upload_loop.induct)
  case (1 server path body tries t delay lastErr slept)
  from "1.prems" have "not_found (server t)" by simp
  then obtain e where st: "server t = Response 404 e"
    by (auto dest: not_foundD)
  show ?case
  proof (cases "t + 1 < tries")
    case True
    then have "tries - 1 - t = Suc (tries - 1 - (t + 1))" by simp
    with True show ?thesis
      using "1.IH"[of 404 e] "1.prems" st
      by (subst upload_loop.simps) (simp add: res_ok_def)
  next
    case False
    with "1.prems" have "t = tries - 1" by simp
    with "1.prems" False show ?thesis
      using st by (subst upload_loop.simps) (auto simp add: res_ok_def)
  qed
qed

lemma upload_loop_abort:
  "well_formed body \<Longrightarrow> t0 \<le> t \<Longrightarrow> t < tries \<Longrightarrow>
   (\<forall>u. t0 \<le> u \<and> u < t \<longrightarrow> not_found (server u)) \<Longrightarrow>
   server t = Response st e \<Longrightarrow> \<not> res_ok st \<Longrightarrow> st \<noteq> 404 \<Longrightarrow>
   upload_loop server path body tries t0 delay lastErr slept =
     \<lparr>attempts = t + 1, sleeps = slept @ backoff (t - t0) delay,
      outcome = Thrown (raise_upload_error path (Some (Response st e)))\<rparr>"
proof (induction server path body tries t0 delay lastErr slept rule: upload_loop.induct)
  case (1 server path body tries t0 delay lastErr slept)
  show ?case
  proof (cases "t0 = t")
    case True
    with "1.prems" show ?thesis
      by (subst upload_loop.simps) simp
  next
    case False
    with "1.prems" have lt: "t0 < t" by simp
    with "1.prems" have "not_found (server t0)" by simp
    then obtain e' where st: "server t0 = Response 404 e'"
      by (auto dest: not_foundD)
    from lt have "t - t0 = Suc (t - (t0 + 1))" by simp
    with lt show ?thesis
      using "1.IH"[of 404 e'] "1.prems" st
      by (subst upload_loop.simps) (simp add: res_ok_def)
  qed
qed

lemma backoff_bounds:
  "0 \<le> delay \<Longrightarrow> delay \<le> 5000 \<Longrightarrow>
   sorted (backoff k delay) \<and> (\<forall>d \<in> set (backoff k delay). delay \<le> d \<and> d \<le> 5000)"
proof (induction k arbitrary: delay)
  case 0
  then show ?case by simp
next
  case (Suc k)
  let ?d = "min (delay * (5 / 4)) 5000"
  have le: "?d \<le> 5000" by simp
  have up: "delay \<le> ?d"
    using Suc.prems by (simp add: min_def)
  with Suc.prems have "0 \<le> ?d" by linarith
  from Suc.IH[OF this le] have
    s: "sorted (backoff k ?d)" and b: "\<forall>d \<in> set (backoff k ?d). ?d \<le> d \<and> d \<le> 5000"
    by blast+
  from b up have "\<forall>d \<in> set (backoff k ?d). delay \<le> d" by fastforce
  with s b Suc.prems show ?case by simp
qed

lemma upload_loop_sleeps:
  "\<exists>k. sleeps (upload_loop server path body tries t delay lastErr slept) = slept @ backoff k delay"
proof (induction server path body tries t delay lastErr slept rule: upload_loop.induct)
  case (1 server path body tries t delay lastErr slept)
  show ?case
  proof (cases "t < tries \<and> well_formed body \<and> (\<exists>e. server t = Response 404 e)
      \<and> int t < int tries - 1")
    case True
    then obtain e where e: "server t = Response 404 e" by blast
    from "1.IH"[of 404 e] True e obtain k where
      "sleeps (upload_loop server path body tries (t + 1) (min (delay * (5 / 4)) 5000)
                (Some (Response 404 e)) (slept @ [delay]))
       = (slept @ [delay]) @ backoff k (min (delay * (5 / 4)) 5000)"
      by (auto simp: res_ok_def)
    then have "sleeps (upload_loop server path body tries t delay lastErr slept)
               = slept @ backoff (Suc k) delay"
      using True e by (subst upload_loop.simps) (simp add: res_ok_def)
    then show ?thesis by blast
  next
    case False
    then have "sleeps (upload_loop server path body tries t delay lastErr slept)
               = slept @ backoff 0 delay"
      by (subst upload_loop.simps) (auto split: fetch_result.splits)
    then show ?thesis by blast
  qed
qed

lemma str_includes_append: "str_includes (a @ p @ b) p"
proof (induction a)
  case Nil
  have "take (length p) (p @ b) = p" by simp
  then show ?case by (cases "p @ b") (auto simp: str_startsWith_def)
next
  case (Cons c a)
  then show ?case by simp
qed

lemma backoff_9: "backoff 9 2000 = [2000, 2500, 3125, 15625 / 4, 78125 / 16, 5000, 5000, 5000, 5000]"
  by (simp add: eval_nat_numeral)

lemma length_backoff: "length (backoff k d) = k"
  by (induction k arbitrary: d) simp_all

text \<open>
  C7 (amended). For a file whose path and content are well-formed strings: with the ten
  tries of the call site and a remote that answers 404 to every attempt, the loop makes
  exactly ten attempts and sleeps nine times, for 2000, 2500, 3125, 3906.25, 4882.8125 and
  then 5000 ms; it then throws an error whose message is the \<open>error\<close> property of the last
  response's JSON body when there is a truthy one, and otherwise the text that names the
  file path and the status 404. A failure status other than 404 at attempt \<open>t\<close>, after 404s
  only, ends the run at \<open>t + 1\<close> attempts with the error thrown. In every run the delays
  slept are non-decreasing and at most 5000. A path with an unpaired surrogate makes the
  function throw a \<open>URIError\<close> before any attempt, and so does such a content when at least
  one try is allowed.
\<close>

theorem bounded_retry:
  "(well_formed path \<and> well_formed body \<and> (\<forall>u<10. not_found (server u)) \<longrightarrow>
      attempts (uploadWithRetry server path body 10) = 10
    \<and> sleeps (uploadWithRetry server path body 10)
        = [2000, 2500, 3125, 15625 / 4, 78125 / 16, 5000, 5000, 5000, 5000]
    \<and> outcome (uploadWithRetry server path body 10)
        = Thrown (Error (case error_field (server 9) of
                           Some e \<Rightarrow> e
                         | None \<Rightarrow> failure_message path 404))
    \<and> str_includes (failure_message path 404) path
    \<and> str_includes (failure_message path 404) (digits 404))
   \<and> sorted (sleeps (uploadWithRetry server path body tries))
   \<and> list_all (\<lambda>d. d \<le> 5000) (sleeps (uploadWithRetry server path body tries))
   \<and> (well_formed path \<and> well_formed body \<and> t < tries \<and> (\<forall>u<t. not_found (server u))
        \<and> server t = Response st e \<and> \<not> res_ok st \<and> st \<noteq> 404 \<longrightarrow>
        attempts (uploadWithRetry server path body tries) = t + 1
      \<and> length (sleeps (uploadWithRetry server path body tries)) = t
      \<and> outcome (uploadWithRetry server path body tries)
          = Thrown (Error (case e of Some m \<Rightarrow> m | None \<Rightarrow> failure_message path st)))
   \<and> (\<not> well_formed path \<longrightarrow>
        uploadWithRetry server path body tries
          = \<lparr>attempts = 0, sleeps = [], outcome = Thrown URIError\<rparr>)
   \<and> (well_formed path \<and> \<not> well_formed body \<and> 0 < tries \<longrightarrow>
        uploadWithRetry server path body tries
          = \<lparr>attempts = 0, sleeps = [], outcome = Thrown URIError\<rparr>)"
proof (intro conjI impI)
  assume a: "well_formed path \<and> well_formed body \<and> (\<forall>u<10. not_found (server u))"
  then have run: "uploadWithRetry server path body 10 =
     \<lparr>attempts = 10, sleeps = backoff 9 2000,
      outcome = Thrown (raise_upload_error path (Some (server 9)))\<rparr>"
    using upload_loop_all_not_found[of body 0 10 server path 2000 None "[]"]
    by (simp add: uploadWithRetry_def)
  from a have "not_found (server 9)" by simp
  then obtain e9 where e9: "server 9 = Response 404 e9" by (auto dest: not_foundD)
  show "attempts (uploadWithRetry server path body 10) = 10"
    by (simp add: run)
  show "sleeps (uploadWithRetry server path body 10)
        = [2000, 2500, 3125, 15625 / 4, 78125 / 16, 5000, 5000, 5000, 5000]"
    by (simp add: run backoff_9)
  show "outcome (uploadWithRetry server path body 10)
        = Thrown (Error (case error_field (server 9) of
                           Some e \<Rightarrow> e
                         | None \<Rightarrow> failure_message path 404))"
    by (cases e9) (simp_all add: run e9 raise_upload_error_def)
  show "str_includes (failure_message path 404) path"
    unfolding failure_message_def by (rule str_includes_append)
  show "str_includes (failure_message path 404) (digits 404)"
    using str_includes_append[of "ascii ''Failed to upload: '' @ path @ ascii ''. Status ''"
        "digits 404"]
    by (simp add: failure_message_def)
next
  obtain k where k: "sleeps (uploadWithRetry server path body tries) = backoff k 2000"
  proof (cases "well_formed path")
    case True
    with upload_loop_sleeps[of server path body tries 0 2000 None "[]"] that show ?thesis
      by (auto simp: uploadWithRetry_def)
  next
    case False
    then have "sleeps (uploadWithRetry server path body tries) = backoff 0 2000"
      by (simp add: uploadWithRetry_def)
    with that show ?thesis by blast
  qed
  show "sorted (sleeps (uploadWithRetry server path body tries))"
    using backoff_bounds[of 2000 k] by (simp add: k)
  show "list_all (\<lambda>d. d \<le> 5000) (sleeps (uploadWithRetry server path body tries))"
    using backoff_bounds[of 2000 k] by (simp add: k list_all_iff)
next
  assume a: "well_formed path \<and> well_formed body \<and> t < tries \<and> (\<forall>u<t. not_found (server u))
        \<and> server t = Response st e \<and> \<not> res_ok st \<and> st \<noteq> 404"
  then have run: "uploadWithRetry server path body tries =
     \<lparr>attempts = t + 1, sleeps = backoff t 2000,
      outcome = Thrown (raise_upload_error path (Some (Response st e)))\<rparr>"
    using upload_loop_abort[of body 0 t tries server st e path 2000 None "[]"]
    by (simp add: uploadWithRetry_def)
  show "attempts (uploadWithRetry server path body tries) = t + 1"
    by (simp add: run)
  show "length (sleeps (uploadWithRetry server path body tries)) = t"
    by (simp add: run length_backoff)
  show "outcome (uploadWithRetry server path body tries)
          = Thrown (Error (case e of Some m \<Rightarrow> m | None \<Rightarrow> failure_message path st))"
    by (cases e) (simp_all add: run raise_upload_error_def)
next
  assume "\<not> well_formed path"
  then show "uploadWithRetry server path body tries
          = \<lparr>attempts = 0, sleeps = [], outcome = Thrown URIError\<rparr>"
    by (simp add: uploadWithRetry_def)
next
  assume "well_formed path \<and> \<not> well_formed body \<and> 0 < tries"
  then show "uploadWithRetry server path body tries
          = \<lparr>attempts = 0, sleeps = [], outcome = Thrown URIError\<rparr>"
    by (simp add: uploadWithRetry_def upload_loop.simps[of _ _ _ _ 0])
qed

lemma well_formed_ascii_samples:
  "well_formed (ascii ''app.py'')" "well_formed (ascii ''print(1)'')"
  "\<not> well_formed lone_surrogate"
  by (simp_all add: ascii_def lone_surrogate_def is_high_surrogate_def is_low_surrogate_def)

theorem bounded_retry_witness:
  "well_formed (ascii ''app.py'') \<and> well_formed (ascii ''print(1)'')
   \<and> not_found (silent_404 0) \<and> not_found (silent_404 9)
   \<and> attempts (uploadWithRetry silent_404 (ascii ''app.py'') (ascii ''print(1)'') 10) = 10
   \<and> outcome (uploadWithRetry silent_404 (ascii ''app.py'') (ascii ''print(1)'') 10)
       = Thrown (Error (failure_message (ascii ''app.py'') 404))
   \<and> str_includes (failure_message (ascii ''app.py'') 404) (ascii ''app.py'')
   \<and> then_500 3 = Response 500 None \<and> \<not> res_ok 500
   \<and> attempts (uploadWithRetry then_500 (ascii ''app.py'') (ascii ''print(1)'') 10) = 4
   \<and> length (sleeps (uploadWithRetry then_500 (ascii ''app.py'') (ascii ''print(1)'') 10)) = 3
   \<and> \<not> well_formed lone_surrogate
   \<and> uploadWithRetry silent_404 lone_surrogate (ascii ''print(1)'') 10
       = \<lparr>attempts = 0, sleeps = [], outcome = Thrown URIError\<rparr>
   \<and> uploadWithRetry silent_404 (ascii ''app.py'') lone_surrogate 10
       = \<lparr>attempts = 0, sleeps = [], outcome = Thrown URIError\<rparr>"
  using bounded_retry[of "ascii ''app.py''" "ascii ''print(1)''" silent_404 10 3 500 None]
    bounded_retry[of "ascii ''app.py''" "ascii ''print(1)''" then_500 10 3 500 None]
    bounded_retry[of lone_surrogate "ascii ''print(1)''" silent_404 10 3 500 None]
    bounded_retry[of "ascii ''app.py''" lone_surrogate silent_404 10 3 500 None]
    well_formed_ascii_samples
  by (simp add: silent_404_def then_500_def res_ok_def)

text \<open>
  The claim as written fails where the 404 responses carry a JSON body with an \<open>error\<close>
  property: the message thrown is that property, which names neither the path nor the
  status.
\<close>

theorem bounded_retry_counterexample:
  "well_formed (ascii ''app.py'') \<and> well_formed (ascii ''print(1)'')
   \<and> not_found (provisioning_404 0) \<and> not_found (provisioning_404 9)
   \<and> attempts (uploadWithRetry provisioning_404 (ascii ''app.py'') (ascii ''print(1)'') 10) = 10
   \<and> outcome (uploadWithRetry provisioning_404 (ascii ''app.py'') (ascii ''print(1)'') 10)
       = Thrown (Error (ascii ''Repository not found''))
   \<and> \<not> str_includes (ascii ''Repository not found'') (ascii ''app.py'')
   \<and> \<not> str_includes (ascii ''Repository not found'') (digits 404)"
proof -
  have "upload_loop provisioning_404 (ascii ''app.py'') (ascii ''print(1)'') 10 0 2000 None [] =
     \<lparr>attempts = 10, sleeps = [] @ backoff (10 - 1 - 0) 2000,
      outcome = Thrown (raise_upload_error (ascii ''app.py'') (Some (provisioning_404 (10 - 1))))\<rparr>"
    by (rule upload_loop_all_not_found)
      (simp_all add: provisioning_404_def well_formed_ascii_samples)
  then show ?thesis
    by (simp add: uploadWithRetry_def provisioning_404_def raise_upload_error_def
        digits.simps ascii_def str_startsWith_def well_formed_ascii_samples[unfolded ascii_def]
        is_high_surrogate_def is_low_surrogate_def)
qed

section \<open>The parser's loop invariant\<close>

subsection \<open>Popping frames\<close>

lemma pop_frames_Nil [simp]: "pop_frames [] d = []"
  by (simp add: pop_frames.simps)

lemma pop_frames_snoc [simp]:
  "pop_frames (stk @ [f]) d = (if snd f \<ge> d then pop_frames stk d else stk @ [f])"
  by (subst pop_frames.simps) simp

lemma pop_frames_prefix: "\<exists>rest. stk = pop_frames stk d @ rest"
proof (induction stk rule: rev_induct)
  case Nil
  then show ?case by simp
next
  case (snoc f stk)
  then obtain rest where r: "stk = pop_frames stk d @ rest" by blast
  show ?case
  proof (cases "snd f \<ge> d")
    case True
    from r have "stk @ [f] = pop_frames stk d @ (rest @ [f])" by simp
    with True show ?thesis by (metis pop_frames_snoc)
  next
    case False
    then show ?thesis by simp
  qed
qed

lemma pop_frames_filter:
  "sorted_wrt (<) (map snd stk) \<Longrightarrow> pop_frames stk d = filter (\<lambda>f. snd f < d) stk"
proof (induction stk rule: rev_induct)
  case Nil
  then show ?case by simp
next
  case (snoc f stk)
  from snoc.prems have s: "sorted_wrt (<) (map snd stk)" and lt: "\<forall>g \<in> set stk. snd g < snd f"
    by (auto simp: sorted_wrt_append)
  show ?case
  proof (cases "snd f \<ge> d")
    case True
    with snoc.IH[OF s] show ?thesis by simp
  next
    case False
    with lt have "\<forall>g \<in> set stk. snd g < d" by fastforce
    then have "filter (\<lambda>f. snd f < d) stk = stk" by simp
    with False show ?thesis by simp
  qed
qed

lemma pop_frames_below: "f \<in> set (pop_frames stk d) \<Longrightarrow> sorted_wrt (<) (map snd stk) \<Longrightarrow> snd f < d"
  by (simp add: pop_frames_filter)

lemma pop_frames_top: "pop_frames stk d \<noteq> [] \<Longrightarrow> snd (last (pop_frames stk d)) < d"
  by (induction stk rule: rev_induct) (auto split: if_splits)

lemma pop_frames_subset: "set (pop_frames stk d) \<subseteq> set stk"
  using pop_frames_prefix[of stk d] by (metis set_append Un_upper1)

lemma pop_frames_sorted:
  "sorted_wrt (<) (map snd stk) \<Longrightarrow> sorted_wrt (<) (map snd (pop_frames stk d))"
  by (simp add: pop_frames_filter sorted_wrt_filter sorted_wrt_map)

lemma process_line_skip:
  "\<not> kept line \<Longrightarrow> process_line gen s line = s"
  by (auto simp: process_line_def kept_def Let_def)

lemma process_line_root:
  "kept line \<Longrightarrow> pop_frames (stack s) (line_depth line) = [] \<Longrightarrow>
   process_line gen s line =
     \<lparr>heap = heap s @ [fresh_node gen (length (heap s)) line],
      result = result s @ [length (heap s)],
      stack = push_frame [] (length (heap s)) line\<rparr>"
  by (simp add: process_line_def kept_def Let_def fresh_node_def push_frame_def)

lemma process_line_child:
  "kept line \<Longrightarrow> pop_frames (stack s) (line_depth line) = stk1 \<Longrightarrow> stk1 \<noteq> [] \<Longrightarrow>
   fst (last stk1) = p \<Longrightarrow> p < length (heap s) \<Longrightarrow> o_children (heap s ! p) = Some cs \<Longrightarrow>
   process_line gen s line =
     \<lparr>heap = (heap s)[p := (heap s ! p)\<lparr>o_children := Some (cs @ [length (heap s)])\<rparr>]
             @ [(fresh_node gen (length (heap s)) line)\<lparr>o_parent := Some (o_id (heap s ! p))\<rparr>],
      result = result s,
      stack = push_frame stk1 (length (heap s)) line\<rparr>"
  by (simp add: process_line_def kept_def Let_def fresh_node_def push_frame_def nth_append
      list_update_append)


lemma kids_fresh [simp]: "kids (fresh_node gen a line) = []"
  by (simp add: kids_def fresh_node_def)

lemma kids_parent_update [simp]: "kids (ob\<lparr>o_parent := x\<rparr>) = kids ob"
  by (simp add: kids_def)

lemma kids_children_update [simp]: "kids (ob\<lparr>o_children := Some cs\<rparr>) = cs"
  by (simp add: kids_def)

lemma mset_kids_update:
  "p < length h \<Longrightarrow> kids x = kids (h ! p) @ [a] \<Longrightarrow>
   mset (concat (map kids (h[p := x]))) = mset (concat (map kids h)) + {#a#}"
proof (induction h arbitrary: p)
  case Nil
  then show ?case by simp
next
  case (Cons ob h)
  then show ?case by (cases p) simp_all
qed


lemma parse_inv_init: "parse_inv gen [] init_state"
  by (simp add: parse_inv_def init_state_def inv_nodes_def inv_roots_def inv_kids_def
      inv_frames_def inv_once_def)

lemma parse_inv_skip:
  assumes "parse_inv gen ls s" and "\<not> kept line"
  shows "parse_inv gen (ls @ [line]) (process_line gen s line)"
proof -
  from assms(2) have "filter kept (ls @ [line]) = filter kept ls" by simp
  with assms show ?thesis
    by (simp only: parse_inv_def process_line_skip[OF assms(2)])
qed

lemma inv_nodes_snoc:
  assumes "inv_nodes gen kl h"
  shows "inv_nodes gen (kl @ [line]) (h @ [(fresh_node gen (length h) line)\<lparr>o_parent := par\<rparr>])"
proof -
  let ?new = "(fresh_node gen (length h) line)\<lparr>o_parent := par\<rparr>"
  from assms have len: "length h = length kl" by (simp add: inv_nodes_def)
  have "\<exists>cs par. (h @ [?new]) ! a = (fresh_node gen a ((kl @ [line]) ! a))\<lparr>o_children := cs, o_parent := par\<rparr>
                \<and> (cs = None \<longleftrightarrow> \<not> line_isFolder ((kl @ [line]) ! a))"
    if a: "a < length (h @ [?new])" for a
  proof (cases "a < length h")
    case True
    with assms len show ?thesis by (simp add: inv_nodes_def nth_append)
  next
    case False
    with a have "a = length h" by simp
    then show ?thesis using len
      by (intro exI[of _ "o_children (fresh_node gen (length h) line)"] exI[of _ par])
         (simp add: nth_append fresh_node_def)
  qed
  with len show ?thesis by (simp add: inv_nodes_def)
qed

lemma inv_nodes_update:
  assumes "inv_nodes gen kl h" and p: "p < length h" and f: "line_isFolder (kl ! p)"
  shows "inv_nodes gen kl (h[p := (h ! p)\<lparr>o_children := Some cs'\<rparr>])"
proof -
  from assms have len: "length h = length kl" by (simp add: inv_nodes_def)
  have "\<exists>cs par. h[p := (h ! p)\<lparr>o_children := Some cs'\<rparr>] ! a
                   = (fresh_node gen a (kl ! a))\<lparr>o_children := cs, o_parent := par\<rparr>
                \<and> (cs = None \<longleftrightarrow> \<not> line_isFolder (kl ! a))"
    if a: "a < length h" for a
  proof (cases "a = p")
    case True
    from assms(1) p obtain cs par where
      "h ! p = (fresh_node gen p (kl ! p))\<lparr>o_children := cs, o_parent := par\<rparr>"
      unfolding inv_nodes_def by blast
    then have "(h ! p)\<lparr>o_children := Some cs'\<rparr>
               = (fresh_node gen p (kl ! p))\<lparr>o_children := Some cs', o_parent := par\<rparr>"
      by simp
    with True p f show ?thesis by auto
  next
    case False
    with assms(1) a show ?thesis by (simp add: inv_nodes_def)
  qed
  with len show ?thesis by (simp add: inv_nodes_def)
qed

subsection \<open>The invariant is kept by every line\<close>

lemma inv_roots_root:
  "inv_roots h r \<Longrightarrow> inv_roots (h @ [fresh_node gen (length h) line]) (r @ [length h])"
  by (auto simp: inv_roots_def nth_append fresh_node_def)

lemma inv_roots_child:
  "inv_roots h r \<Longrightarrow> p < length h \<Longrightarrow>
   inv_roots (h[p := (h ! p)\<lparr>o_children := x\<rparr>] @ [new]) r"
  by (auto simp: inv_roots_def nth_append nth_list_update)

lemma kids_snoc_lt:
  assumes p: "p < length (h @ [new])" and k: "kids new = []"
    and c: "c \<in> set (kids ((h @ [new]) ! p))"
  shows "p < length h"
proof (rule ccontr)
  assume "\<not> p < length h"
  with p have "p = length h" by simp
  with c k show False by simp
qed

lemma inv_kids_root:
  assumes "inv_kids gen kl h" and len: "length h = length kl"
  shows "inv_kids gen (kl @ [line]) (h @ [fresh_node gen (length h) line])"
  unfolding inv_kids_def
proof (intro allI impI ballI)
  fix p c
  assume p: "p < length (h @ [fresh_node gen (length h) line])"
    and c: "c \<in> set (kids ((h @ [fresh_node gen (length h) line]) ! p))"
  from p c have pn: "p < length h" by (rule kids_snoc_lt[OF _ kids_fresh])
  with c have "c \<in> set (kids (h ! p))" by (simp add: nth_append)
  with assms(1) pn have o: "p < c" "c < length h" "o_parent (h ! c) = Some (gen p)"
      "line_depth (kl ! p) < line_depth (kl ! c)"
    unfolding inv_kids_def by blast+
  from o(2) have 1: "(h @ [fresh_node gen (length h) line]) ! c = h ! c" by (simp add: nth_append)
  from o(2) len have 2: "(kl @ [line]) ! c = kl ! c" by (simp add: nth_append)
  from pn len have 3: "(kl @ [line]) ! p = kl ! p" by (simp add: nth_append)
  from o show "p < c \<and> c < length (h @ [fresh_node gen (length h) line])
      \<and> o_parent ((h @ [fresh_node gen (length h) line]) ! c) = Some (gen p)
      \<and> line_depth ((kl @ [line]) ! p) < line_depth ((kl @ [line]) ! c)"
    unfolding 1 2 3 by simp
qed

lemma inv_kids_child:
  assumes inv: "inv_kids gen kl h" and len: "length h = length kl" and p: "p < length h"
    and cs: "o_children (h ! p) = Some cs"
    and d: "line_depth (kl ! p) < line_depth line"
  shows "inv_kids gen (kl @ [line])
           (h[p := (h ! p)\<lparr>o_children := Some (cs @ [length h])\<rparr>]
            @ [(fresh_node gen (length h) line)\<lparr>o_parent := Some (gen p)\<rparr>])"
    (is "inv_kids gen _ (?hu @ [?new])")
  unfolding inv_kids_def
proof (intro allI impI ballI)
  fix q c
  assume q: "q < length (?hu @ [?new])" and c: "c \<in> set (kids ((?hu @ [?new]) ! q))"
  have kn: "kids ?new = []" by simp
  from q c have "q < length ?hu" by (rule kids_snoc_lt[OF _ kn])
  then have qn: "q < length h" by simp
  have old: "p' < c' \<and> c' < length h \<and> o_parent (h ! c') = Some (gen p')
      \<and> line_depth (kl ! p') < line_depth (kl ! c')"
    if "p' < length h" "c' \<in> set (kids (h ! p'))" for p' c'
    using inv that unfolding inv_kids_def by blast
  from cs have kp: "kids (h ! p) = cs" by (simp add: kids_def)
  from qn len have lq: "(kl @ [line]) ! q = kl ! q" by (simp add: nth_append)
  have hq: "(?hu @ [?new]) ! q = ?hu ! q" using qn by (simp add: nth_append)
  show "q < c \<and> c < length (?hu @ [?new]) \<and> o_parent ((?hu @ [?new]) ! c) = Some (gen q)
      \<and> line_depth ((kl @ [line]) ! q) < line_depth ((kl @ [line]) ! c)"
  proof (cases "c = length h")
    case True
    have "q = p"
    proof (rule ccontr)
      assume "q \<noteq> p"
      with c hq have "c \<in> set (kids (h ! q))" by simp
      from old[OF qn this] True show False by simp
    qed
    moreover have "(?hu @ [?new]) ! length h = ?new" by (simp add: nth_append)
    moreover have "(kl @ [line]) ! length h = line" using len by (simp add: nth_append)
    ultimately show ?thesis using True p d lq by simp
  next
    case False
    have c': "c \<in> set (kids (h ! q))"
    proof (cases "q = p")
      case True
      with c hq p have "c \<in> set (cs @ [length h])" by simp
      with False kp True show ?thesis by simp
    next
      case False
      with c hq show ?thesis by simp
    qed
    from old[OF qn c'] have o: "q < c" "c < length h" "o_parent (h ! c) = Some (gen q)"
      "line_depth (kl ! q) < line_depth (kl ! c)" by simp_all
    from o(2) have hc: "(?hu @ [?new]) ! c = ?hu ! c" by (simp add: nth_append)
    from o(2) len have lc: "(kl @ [line]) ! c = kl ! c" by (simp add: nth_append)
    have "o_parent (?hu ! c) = Some (gen q)"
      using o(3) p by (cases "c = p") simp_all
    with o lq lc hc show ?thesis by simp
  qed
qed

lemma inv_frames_pop:
  assumes "inv_frames kl h stk"
  shows "inv_frames kl h (pop_frames stk d)" and "\<forall>f \<in> set (pop_frames stk d). snd f < d"
proof -
  from assms have s: "sorted_wrt (<) (map snd stk)" by (simp add: inv_frames_def)
  show "\<forall>f \<in> set (pop_frames stk d). snd f < d"
    using pop_frames_below[OF _ s] by blast
  show "inv_frames kl h (pop_frames stk d)"
    using assms pop_frames_subset[of stk d] pop_frames_sorted[OF s, of d]
    by (auto simp: inv_frames_def)
qed

lemma inv_frames_push:
  assumes inv: "inv_frames kl h stk" and len: "length h = length kl"
    and below: "\<forall>f \<in> set stk. snd f < line_depth line"
    and h': "length h' = Suc (length h)"
  shows "inv_frames (kl @ [line]) h' (push_frame stk (length h) line)"
proof -
  from inv have old: "\<forall>f \<in> set stk. fst f < length h' \<and> line_isFolder ((kl @ [line]) ! fst f)
      \<and> snd f = line_depth ((kl @ [line]) ! fst f)"
    using len h' by (auto simp: inv_frames_def nth_append)
  from inv have s: "sorted_wrt (<) (map snd stk)" by (simp add: inv_frames_def)
  show ?thesis
  proof (cases "line_isFolder line")
    case True
    with old s below len h' show ?thesis
      by (auto simp: inv_frames_def push_frame_def sorted_wrt_append nth_append)
  next
    case False
    with old s show ?thesis by (simp add: inv_frames_def push_frame_def)
  qed
qed

lemma inv_once_root:
  "inv_once h r \<Longrightarrow> kids new = [] \<Longrightarrow> inv_once (h @ [new]) (r @ [length h])"
  by (simp add: inv_once_def)

lemma inv_once_child:
  "inv_once h r \<Longrightarrow> p < length h \<Longrightarrow> kids x = kids (h ! p) @ [length h] \<Longrightarrow> kids new = [] \<Longrightarrow>
   inv_once (h[p := x] @ [new]) r"
  by (simp add: inv_once_def mset_kids_update)

lemma inv_nodes_id: "inv_nodes gen kl h \<Longrightarrow> a < length h \<Longrightarrow> o_id (h ! a) = gen a"
  unfolding inv_nodes_def by (auto simp: fresh_node_def)

lemma inv_nodes_fields:
  "inv_nodes gen kl h \<Longrightarrow> a < length h \<Longrightarrow>
   o_name (h ! a) = line_name (kl ! a)
   \<and> o_type (h ! a) = (if line_isFolder (kl ! a) then Folder else File)
   \<and> o_content (h ! a)
       = (if line_isFolder (kl ! a) then None else Some (default_content (line_name (kl ! a))))"
  unfolding inv_nodes_def by (auto simp: fresh_node_def)

lemma inv_nodes_folder:
  "inv_nodes gen kl h \<Longrightarrow> a < length h \<Longrightarrow> line_isFolder (kl ! a) \<Longrightarrow>
   \<exists>cs. o_children (h ! a) = Some cs"
  unfolding inv_nodes_def by force

lemma inv_nodes_file:
  "inv_nodes gen kl h \<Longrightarrow> a < length h \<Longrightarrow> \<not> line_isFolder (kl ! a) \<Longrightarrow>
   o_children (h ! a) = None"
  unfolding inv_nodes_def by force

lemma parse_inv_root:
  assumes inv: "parse_inv gen ls s" and k: "kept line"
    and e: "pop_frames (stack s) (line_depth line) = []"
  shows "parse_inv gen (ls @ [line]) (process_line gen s line)"
proof -
  let ?h = "heap s" and ?kl = "filter kept ls"
  from inv have n: "inv_nodes gen ?kl ?h" and r: "inv_roots ?h (result s)"
    and c: "inv_kids gen ?kl ?h" and f: "inv_frames ?kl ?h (stack s)"
    and o: "inv_once ?h (result s)"
    by (simp_all add: parse_inv_def)
  from n have len: "length ?h = length ?kl" by (simp add: inv_nodes_def)
  have kl: "filter kept (ls @ [line]) = ?kl @ [line]" using k by simp
  have new: "(fresh_node gen (length ?h) line)\<lparr>o_parent := None\<rparr> = fresh_node gen (length ?h) line"
    by (simp add: fresh_node_def)
  have st: "heap (process_line gen s line) = ?h @ [fresh_node gen (length ?h) line]"
    "result (process_line gen s line) = result s @ [length ?h]"
    "stack (process_line gen s line) = push_frame [] (length ?h) line"
    by (simp_all add: process_line_root[OF k e])
  have "inv_frames ?kl ?h []" by (simp add: inv_frames_def)
  then have fr: "inv_frames (?kl @ [line]) (?h @ [fresh_node gen (length ?h) line])
                   (push_frame [] (length ?h) line)"
    by (rule inv_frames_push[OF _ len]) simp_all
  show ?thesis
    unfolding parse_inv_def st kl
    using inv_nodes_snoc[OF n, of line None] inv_roots_root[OF r] inv_kids_root[OF c len]
      fr inv_once_root[OF o kids_fresh]
    by (simp only: new simp_thms)
qed

lemma parse_inv_child:
  assumes inv: "parse_inv gen ls s" and k: "kept line"
    and ne: "pop_frames (stack s) (line_depth line) \<noteq> []"
  shows "parse_inv gen (ls @ [line]) (process_line gen s line)"
    and "\<exists>cs. process_line gen s line =
     \<lparr>heap = (heap s)[fst (last (pop_frames (stack s) (line_depth line)))
                := (heap s ! fst (last (pop_frames (stack s) (line_depth line))))
                     \<lparr>o_children := Some (cs @ [length (heap s)])\<rparr>]
             @ [(fresh_node gen (length (heap s)) line)
                  \<lparr>o_parent := Some (gen (fst (last (pop_frames (stack s) (line_depth line)))))\<rparr>],
      result = result s,
      stack = push_frame (pop_frames (stack s) (line_depth line)) (length (heap s)) line\<rparr>
     \<and> o_children (heap s ! fst (last (pop_frames (stack s) (line_depth line)))) = Some cs"
proof -
  let ?h = "heap s" and ?kl = "filter kept ls"
  let ?stk1 = "pop_frames (stack s) (line_depth line)"
  let ?p = "fst (last ?stk1)"
  from inv have n: "inv_nodes gen ?kl ?h" and r: "inv_roots ?h (result s)"
    and c: "inv_kids gen ?kl ?h" and f: "inv_frames ?kl ?h (stack s)"
    and o: "inv_once ?h (result s)"
    by (simp_all add: parse_inv_def)
  from n have len: "length ?h = length ?kl" by (simp add: inv_nodes_def)
  have kl: "filter kept (ls @ [line]) = ?kl @ [line]" using k by simp
  note f1 = inv_frames_pop[OF f, of "line_depth line"]
  from ne have "last ?stk1 \<in> set ?stk1" by simp
  with f1 have top: "?p < length ?h" "line_isFolder (?kl ! ?p)"
    "snd (last ?stk1) = line_depth (?kl ! ?p)" "snd (last ?stk1) < line_depth line"
    unfolding inv_frames_def by blast+
  from inv_nodes_folder[OF n top(1,2)] obtain cs where cs: "o_children (?h ! ?p) = Some cs"
    by blast
  have idp: "o_id (?h ! ?p) = gen ?p" by (rule inv_nodes_id[OF n top(1)])
  let ?hu = "?h[?p := (?h ! ?p)\<lparr>o_children := Some (cs @ [length ?h])\<rparr>]"
  let ?new = "(fresh_node gen (length ?h) line)\<lparr>o_parent := Some (gen ?p)\<rparr>"
  have eq: "process_line gen s line =
     \<lparr>heap = ?hu @ [?new], result = result s, stack = push_frame ?stk1 (length ?h) line\<rparr>"
    using process_line_child[OF k refl ne refl top(1) cs] by (simp only: idp)
  with cs show "\<exists>cs. process_line gen s line =
     \<lparr>heap = ?h[?p := (?h ! ?p)\<lparr>o_children := Some (cs @ [length ?h])\<rparr>] @ [?new],
      result = result s, stack = push_frame ?stk1 (length ?h) line\<rparr>
     \<and> o_children (?h ! ?p) = Some cs"
    by blast
  have st: "heap (process_line gen s line) = ?hu @ [?new]"
    "result (process_line gen s line) = result s"
    "stack (process_line gen s line) = push_frame ?stk1 (length ?h) line"
    by (simp_all add: eq)
  have n': "inv_nodes gen (?kl @ [line]) (?hu @ [?new])"
    using inv_nodes_snoc[OF inv_nodes_update[OF n top(1,2), of "cs @ [length ?h]"], of line "Some (gen ?p)"]
    by simp
  have r': "inv_roots (?hu @ [?new]) (result s)"
    by (rule inv_roots_child[OF r top(1)])
  have c': "inv_kids gen (?kl @ [line]) (?hu @ [?new])"
    using inv_kids_child[OF c len top(1) cs] top(3,4) by simp
  have f': "inv_frames (?kl @ [line]) (?hu @ [?new]) (push_frame ?stk1 (length ?h) line)"
    by (rule inv_frames_push[OF f1(1) len f1(2)]) simp
  have "kids ((?h ! ?p)\<lparr>o_children := Some (cs @ [length ?h])\<rparr>) = kids (?h ! ?p) @ [length ?h]"
    using cs by (simp add: kids_def)
  then have o': "inv_once (?hu @ [?new]) (result s)"
    by (rule inv_once_child[OF o top(1)]) simp
  show "parse_inv gen (ls @ [line]) (process_line gen s line)"
    unfolding parse_inv_def st kl using n' r' c' f' o' by blast
qed

lemma parse_inv_step:
  "parse_inv gen ls s \<Longrightarrow> parse_inv gen (ls @ [line]) (process_line gen s line)"
  using parse_inv_skip parse_inv_root parse_inv_child(1) by blast

lemma parse_inv_foldl:
  "parse_inv gen ls s \<Longrightarrow> parse_inv gen (ls @ ls') (foldl (process_line gen) s ls')"
proof (induction ls' arbitrary: ls s)
  case Nil
  then show ?case by simp
next
  case (Cons l ls')
  from Cons.IH[OF parse_inv_step[OF Cons.prems, of l]] show ?case by simp
qed

lemma parse_inv_parse_lines: "parse_inv gen ls (parse_lines gen ls)"
  using parse_inv_foldl[OF parse_inv_init, of gen ls] by (simp add: parse_lines_def)

section \<open>The forest the parser returns\<close>

lemma those_map_Some:
  "(\<And>x. x \<in> set xs \<Longrightarrow> f x = Some (g x)) \<Longrightarrow> those (map f xs) = Some (map g xs)"
  by (induction xs) simp_all

lemma those_map_SomeD:
  "those (map f xs) = Some ys \<Longrightarrow> x \<in> set xs \<Longrightarrow> \<exists>y. f x = Some y"
  by (induction xs arbitrary: ys) (auto split: option.splits)

lemma inv_kidsD:
  assumes "inv_kids gen kl h" "p < length h" "o_children (h ! p) = Some cs" "c \<in> set cs"
  shows "p < c \<and> c < length h"
proof -
  from assms(3) have "kids (h ! p) = cs" by (simp add: kids_def)
  with assms(4) have "c \<in> set (kids (h ! p))" by simp
  with assms(1,2) show ?thesis unfolding inv_kids_def by blast
qed

lemma tree_of_enough:
  assumes c: "inv_kids gen kl h"
  shows "a < length h \<Longrightarrow> length h - a \<le> fuel \<Longrightarrow>
         tree_of fuel h a = Some (FileNode (o_id (h ! a)) (o_name (h ! a)) (o_type (h ! a))
            (o_content (h ! a)) (map_option (map (node_at h)) (o_children (h ! a)))
            (o_parent (h ! a)))"
proof (induction "length h - a" arbitrary: a fuel rule: less_induct)
  case less
  from less.prems obtain f' where f': "fuel = Suc f'" by (cases fuel) auto
  show ?case
  proof (cases "o_children (h ! a)")
    case None
    with less.prems f' show ?thesis by simp
  next
    case (Some cs)
    have kid: "tree_of f' h k = Some (node_at h k)" if k: "k \<in> set cs" for k
    proof -
      from inv_kidsD[OF c less.prems(1) Some k] have ak: "a < k" "k < length h"
        by simp_all
      then have lt: "length h - k < length h - a" by simp
      from ak less.prems f' have e1: "length h - k \<le> f'" by simp
      have e2: "length h - k \<le> length h" by simp
      from less.hyps[OF lt ak(2) e1] less.hyps[OF lt ak(2) e2]
      show ?thesis by (simp add: node_at_def)
    qed
    then have "those (map (tree_of f' h) cs) = Some (map (node_at h) cs)"
      by (rule those_map_Some)
    with Some less.prems f' show ?thesis by simp
  qed
qed

lemma node_at_eq:
  assumes "inv_kids gen kl h" and "a < length h"
  shows "node_at h a = FileNode (o_id (h ! a)) (o_name (h ! a)) (o_type (h ! a))
            (o_content (h ! a)) (map_option (map (node_at h)) (o_children (h ! a)))
            (o_parent (h ! a))"
  using tree_of_enough[OF assms, of "length h"] by (simp add: node_at_def)

lemma forest_of_inv:
  assumes "inv_kids gen kl h" and "inv_roots h r"
  shows "forest_of (h, r) = Some (map (node_at h) r)"
proof -
  have "tree_of (length h) h a = Some (node_at h a)" if "a \<in> set r" for a
  proof -
    from that assms(2) have "a < length h" by (simp add: inv_roots_def)
    from tree_of_enough[OF assms(1) this, of "length h"] node_at_eq[OF assms(1) this]
    show ?thesis by simp
  qed
  then show ?thesis
    unfolding forest_of_def fst_conv snd_conv by (rule those_map_Some)
qed

text \<open>Counting over a store whose addresses are each a root or a child exactly once.\<close>

lemma sum_list_concat_kids:
  "sum_list (map M (concat (map kids h))) = sum_list (map (\<lambda>ob. sum_list (map M (kids ob))) h)"
  by (induction h) simp_all

lemma forest_sum:
  fixes M g :: "addr \<Rightarrow> 'm::cancel_comm_monoid_add"
  assumes once: "inv_once h r"
    and M: "\<And>a. a < length h \<Longrightarrow> M a = g a + sum_list (map M (kids (h ! a)))"
  shows "sum_list (map M r) = sum_list (map g [0..<length h])"
proof -
  let ?K = "sum_list (map (\<lambda>a. sum_list (map M (kids (h ! a)))) [0..<length h])"
  from once have "image_mset M (mset r + mset (concat (map kids h)))
                  = image_mset M (mset [0..<length h])"
    by (simp only: inv_once_def)
  then have "sum_mset (image_mset M (mset r + mset (concat (map kids h))))
             = sum_mset (image_mset M (mset [0..<length h]))"
    by simp
  then have 1: "sum_list (map M r) + sum_list (map M (concat (map kids h)))
             = sum_list (map M [0..<length h])"
    by (simp only: image_mset_union sum_mset.union mset_map[symmetric] sum_mset_sum_list)
  have "map (\<lambda>ob. sum_list (map M (kids ob))) h
        = map (\<lambda>a. sum_list (map M (kids (h ! a)))) [0..<length h]"
    by (rule nth_equalityI) simp_all
  then have 2: "sum_list (map M (concat (map kids h))) = ?K"
    by (simp only: sum_list_concat_kids)
  have "map M [0..<length h]
        = map (\<lambda>a. g a + sum_list (map M (kids (h ! a)))) [0..<length h]"
    using M by simp
  then have 3: "sum_list (map M [0..<length h]) = sum_list (map g [0..<length h]) + ?K"
    by (simp only: sum_list_addf)
  from 1 2 3 have "sum_list (map M r) + ?K = sum_list (map g [0..<length h]) + ?K"
    by simp
  then show ?thesis by simp
qed

lemma all_nodes_append: "all_nodes (xs @ ys) = all_nodes xs @ all_nodes ys"
  by (induction xs) simp_all

lemma mset_all_nodes_map:
  "mset (map f (all_nodes (map T cs))) = sum_list (map (\<lambda>c. mset (map f (all_nodes [T c]))) cs)"
proof (induction cs)
  case Nil
  then show ?case by simp
next
  case (Cons c cs)
  have "all_nodes (map T (c # cs)) = all_nodes [T c] @ all_nodes (map T cs)"
    using all_nodes_append[of "[T c]" "map T cs"] by simp
  with Cons show ?case by simp
qed

lemma sum_list_singletons: "sum_list (map (\<lambda>a. {#f a#}) xs) = mset (map f xs)"
  by (induction xs) simp_all

lemma forest_fields:
  assumes inv: "parse_inv gen ls s"
  shows "mset (map node_fields (all_nodes (map (node_at (heap s)) (result s))))
         = mset (map2 (line_fields gen) [0..<length (filter kept ls)] (filter kept ls))"
proof -
  let ?h = "heap s" and ?kl = "filter kept ls"
  let ?M = "\<lambda>a. mset (map node_fields (all_nodes [node_at ?h a]))"
  let ?g = "\<lambda>a. {#line_fields gen a (?kl ! a)#}"
  from inv have n: "inv_nodes gen ?kl ?h" and c: "inv_kids gen ?kl ?h"
    and o: "inv_once ?h (result s)"
    by (simp_all add: parse_inv_def)
  from n have len: "length ?h = length ?kl" by (simp add: inv_nodes_def)
  have M: "?M a = ?g a + sum_list (map ?M (kids (?h ! a)))" if a: "a < length ?h" for a
  proof -
    have f: "node_fields (node_at ?h a) = line_fields gen a (?kl ! a)"
      using node_at_eq[OF c a] inv_nodes_id[OF n a] inv_nodes_fields[OF n a]
      by (simp add: node_fields_def line_fields_def)
    have "children (node_at ?h a) = map_option (map (node_at ?h)) (o_children (?h ! a))"
      by (subst node_at_eq[OF c a]) simp
    then have X: "all_nodes [node_at ?h a]
               = node_at ?h a # all_nodes (map (node_at ?h) (kids (?h ! a)))"
      by (cases "o_children (?h ! a)") (simp_all add: kids_def)
    have "?M a = {#node_fields (node_at ?h a)#}
                 + mset (map node_fields (all_nodes (map (node_at ?h) (kids (?h ! a)))))"
      unfolding X by simp
    then show ?thesis
      by (simp only: f mset_all_nodes_map)
  qed
  have "mset (map node_fields (all_nodes (map (node_at ?h) (result s))))
        = sum_list (map ?M (result s))"
    by (rule mset_all_nodes_map)
  also have "\<dots> = sum_list (map ?g [0..<length ?h])"
    by (rule forest_sum[OF o M])
  also have "\<dots> = mset (map (\<lambda>a. line_fields gen a (?kl ! a)) [0..<length ?h])"
    by (rule sum_list_singletons)
  also have "map (\<lambda>a. line_fields gen a (?kl ! a)) [0..<length ?h]
             = map2 (line_fields gen) [0..<length ?kl] ?kl"
    unfolding len by (rule nth_equalityI) simp_all
  finally show ?thesis .
qed


section \<open>The depth of a line\<close>

lemma length_collapse_ws: "length (collapse_ws s) \<le> length s"
proof (induction s rule: collapse_ws.induct)
  case 1
  then show ?case by simp
next
  case (2 c s)
  have "length (dropWhile is_space s) \<le> length s" by (rule length_dropWhile_le)
  with 2 show ?case by (auto simp: le_SucI)
qed

lemma length_str_trim: "length (str_trim s) \<le> length s"
proof -
  have "length (dropWhile is_space (rev (dropWhile is_space s))) \<le> length (rev (dropWhile is_space s))"
    by (rule length_dropWhile_le)
  also have "\<dots> \<le> length s" by (simp add: length_dropWhile_le)
  finally show ?thesis by (simp add: str_trim_def)
qed

lemma length_clean_trim: "length (str_trim (clean_line line)) \<le> length line"
proof -
  have "length (str_trim (clean_line line)) \<le> length (clean_line line)"
    by (rule length_str_trim)
  also have "\<dots> \<le> length (filter (\<lambda>c. c \<notin> {BOX_TEE, BOX_ELBOW, BOX_VERT, BOX_HORIZ}) line)"
    unfolding clean_line_def by (rule length_collapse_ws)
  also have "\<dots> \<le> length line" by (rule length_filter_le)
  finally show ?thesis .
qed

lemma quarter_int: "(of_nat k / 4 :: rat) \<in> \<int> \<longleftrightarrow> 4 dvd k"
proof
  assume "(of_nat k / 4 :: rat) \<in> \<int>"
  then obtain z :: int where z: "(of_nat k / 4 :: rat) = of_int z" by (rule Ints_cases)
  then have "(of_nat k :: rat) = of_int (4 * z)" by simp
  then have "(of_int (int k) :: rat) = of_int (4 * z)" by simp
  then have "int k = 4 * z" by (simp only: of_int_eq_iff)
  then show "4 dvd k" by presburger
next
  assume "4 dvd k"
  then obtain m where "k = 4 * m" by (auto simp: dvd_def)
  then show "(of_nat k / 4 :: rat) \<in> \<int>" by simp
qed

lemma quarter_floor: "\<lfloor>of_nat k / 4 :: rat\<rfloor> = int (k div 4)"
  by (metis floor_divide_of_nat_eq of_nat_numeral)

text \<open>
  C4 (amended). The depth of a line is the exact quotient by 4 of the difference between
  the length of the line and the length of its cleaned and trimmed text; the difference is
  never negative; the depth is an integer exactly when the difference is a multiple of 4,
  and the integer quotient is its floor.
\<close>

theorem line_depth_exact_quotient:
  "line_depth line = of_nat (length line - length (str_trim (clean_line line))) / 4
   \<and> 0 \<le> line_depth line
   \<and> (line_depth line \<in> \<int> \<longleftrightarrow> 4 dvd (length line - length (str_trim (clean_line line))))
   \<and> \<lfloor>line_depth line\<rfloor> = int ((length line - length (str_trim (clean_line line))) div 4)"
proof -
  let ?k = "length line - length (str_trim (clean_line line))"
  have eq: "line_depth line = of_nat ?k / 4"
    using length_clean_trim[of line] by (simp add: line_depth_def of_nat_diff)
  show ?thesis
    unfolding eq using quarter_int[of ?k] quarter_floor[of ?k] by simp
qed

text \<open>
  The claim as written fails on a line indented by two spaces: its depth is one half, not
  the integer quotient 0.
\<close>

theorem line_depth_counterexample:
  "kept half_indented \<and> line_depth half_indented = 1 / 2
   \<and> of_int \<lfloor>line_depth half_indented\<rfloor> \<noteq> line_depth half_indented
   \<and> line_depth half_indented
       \<noteq> of_nat ((length half_indented - length (str_trim (clean_line half_indented))) div 4)"
proof -
  have k: "kept half_indented"
    by (simp add: half_indented_def kept_def is_root_label_def line_name_def clean_line_def
        str_trim_def str_startsWith_def str_endsWith_def is_space_def char_defs ascii_def)
  have t: "str_trim (clean_line half_indented) = ascii ''a.py''"
    by (simp add: half_indented_def clean_line_def str_trim_def is_space_def char_defs ascii_def)
  have d: "line_depth half_indented = 1 / 2"
    by (simp add: line_depth_def t) (simp add: half_indented_def ascii_def)
  have f: "\<lfloor>1 / 2 :: rat\<rfloor> = 0"
    by (rule floor_unique) simp_all
  have n: "(length half_indented - length (str_trim (clean_line half_indented))) div 4 = 0"
    by (simp add: t) (simp add: half_indented_def ascii_def)
  show ?thesis
    unfolding n unfolding d f using k by simp
qed

section \<open>The parser on the depth-inference listing\<close>

lemmas line_defs = is_root_label_def line_depth_def line_name_def line_isFolder_def clean_line_def
  str_trim_def str_startsWith_def str_endsWith_def is_space_def char_defs ascii_def

lemma depth_listing_lines: "text_lines depth_listing = [line_app, line_main, line_sub, line_deep]"
  by (simp add: text_lines_def depth_listing_def line_defs line_app_def line_main_def line_sub_def
      line_deep_def)

lemma line_app_eval: "is_root_label line_app" "\<not> kept line_app"
  by (simp_all add: line_defs kept_def line_app_def)

lemma line_main_eval:
  "kept line_main" "line_depth line_main = 1" "line_name line_main = ascii ''main.py''"
  "\<not> line_isFolder line_main"
  by (simp_all add: kept_def line_defs line_main_def)

lemma line_sub_eval:
  "kept line_sub" "line_depth line_sub = 1" "line_name line_sub = ascii ''sub''"
  "line_isFolder line_sub"
  by (simp_all add: kept_def line_defs line_sub_def)

lemma line_deep_eval:
  "kept line_deep" "line_depth line_deep = 2" "line_name line_deep = ascii ''deep.py''"
  "\<not> line_isFolder line_deep"
  by (simp_all add: kept_def line_defs line_deep_def)

lemma default_content_py:
  "default_content (ascii ''main.py'') = ascii ''# main.py'' @ [LF] @ ascii ''# TODO: Implement functionality''"
  "default_content (ascii ''deep.py'') = ascii ''# deep.py'' @ [LF] @ ascii ''# TODO: Implement functionality''"
  by (simp_all add: default_content_def fileExtension_def str_startsWith_def char_defs ascii_def)

lemma fresh_evals:
  "fresh_node gen a line_main = \<lparr>o_id = gen a, o_name = ascii ''main.py'', o_type = File,
     o_content = Some (ascii ''# main.py'' @ [LF] @ ascii ''# TODO: Implement functionality''),
     o_children = None, o_parent = None\<rparr>"
  "fresh_node gen a line_sub = \<lparr>o_id = gen a, o_name = ascii ''sub'', o_type = Folder,
     o_content = None, o_children = Some [], o_parent = None\<rparr>"
  "fresh_node gen a line_deep = \<lparr>o_id = gen a, o_name = ascii ''deep.py'', o_type = File,
     o_content = Some (ascii ''# deep.py'' @ [LF] @ ascii ''# TODO: Implement functionality''),
     o_children = None, o_parent = None\<rparr>"
  by (simp_all add: fresh_node_def line_main_eval line_sub_eval line_deep_eval default_content_py)

lemma push_evals:
  "push_frame stk a line_main = stk" "push_frame stk a line_sub = stk @ [(a, 1)]"
  "push_frame stk a line_deep = stk"
  by (simp_all add: push_frame_def line_main_eval line_sub_eval line_deep_eval)

lemma run_sub:
  "parse_lines gen [line_app, line_main, line_sub] =
     \<lparr>heap = [fresh_node gen 0 line_main, fresh_node gen 1 line_sub],
      result = [0, 1], stack = [(1, 1)]\<rparr>"
proof -
  have s0: "process_line gen init_state line_app = init_state"
    by (simp add: process_line_skip line_app_eval)
  have s1: "process_line gen init_state line_main
            = \<lparr>heap = [fresh_node gen 0 line_main], result = [0], stack = []\<rparr>"
    using process_line_root[of line_main init_state gen]
    by (simp add: line_main_eval push_evals init_state_def)
  have s2: "process_line gen \<lparr>heap = [fresh_node gen 0 line_main], result = [0], stack = []\<rparr> line_sub
            = \<lparr>heap = [fresh_node gen 0 line_main, fresh_node gen 1 line_sub],
               result = [0, 1], stack = [(1, 1)]\<rparr>"
    using process_line_root[of line_sub
        "\<lparr>heap = [fresh_node gen 0 line_main], result = [0], stack = []\<rparr>" gen]
    by (simp add: line_sub_eval push_evals)
  have "parse_lines gen [line_app, line_main, line_sub]
        = process_line gen (process_line gen (process_line gen init_state line_app) line_main) line_sub"
    by (simp add: parse_lines_def)
  then show ?thesis by (simp only: s0 s1 s2)
qed

lemma pop_frames_single: "pop_frames [f] d = (if snd f \<ge> d then [] else [f])"
  using pop_frames_snoc[of "[]" f d] by simp

lemma run_deep:
  "parse_lines gen [line_app, line_main, line_sub, line_deep] =
     \<lparr>heap = [fresh_node gen 0 line_main,
              (fresh_node gen 1 line_sub)\<lparr>o_children := Some [2]\<rparr>,
              (fresh_node gen 2 line_deep)\<lparr>o_parent := Some (gen 1)\<rparr>],
      result = [0, 1], stack = [(1, 1)]\<rparr>"
proof -
  have "parse_lines gen [line_app, line_main, line_sub, line_deep]
        = process_line gen (parse_lines gen [line_app, line_main, line_sub]) line_deep"
    by (simp add: parse_lines_def)
  also have "\<dots> = \<lparr>heap = [fresh_node gen 0 line_main,
              (fresh_node gen 1 line_sub)\<lparr>o_children := Some [2]\<rparr>,
              (fresh_node gen 2 line_deep)\<lparr>o_parent := Some (gen 1)\<rparr>],
      result = [0, 1], stack = [(1, 1)]\<rparr>"
    unfolding run_sub
    using process_line_child[of line_deep
        "\<lparr>heap = [fresh_node gen 0 line_main, fresh_node gen 1 line_sub],
          result = [0, 1], stack = [(1, 1)]\<rparr>" "[(1, 1)]" 1 "[]" gen]
    by (simp add: line_deep_eval pop_frames_single fresh_evals push_evals numeral_2_eq_2)
  finally show ?thesis .
qed

lemma depth_listing_forest:
  "forest_of (parseStructure gen depth_listing) = Some
     [FileNode (gen 0) (ascii ''main.py'') File
        (Some (ascii ''# main.py'' @ [LF] @ ascii ''# TODO: Implement functionality'')) None None,
      FileNode (gen 1) (ascii ''sub'') Folder None
        (Some [FileNode (gen 2) (ascii ''deep.py'') File
                 (Some (ascii ''# deep.py'' @ [LF] @ ascii ''# TODO: Implement functionality''))
                 None (Some (gen 1))]) None]"
  by (simp add: parseStructure_def depth_listing_lines run_deep forest_of_def fresh_evals
      eval_nat_numeral)

section \<open>The depth-inference listing and the root-label test\<close>

text \<open>
  C1 (amended). For the listing \<open>app/\<close>, \<open>|-- main.py\<close>, \<open>`-- sub/\<close>, \<open>    `-- deep.py\<close> the
  line \<open>app/\<close> is skipped as a root label, and parse returns a forest of two roots, the
  file \<open>main.py\<close> and the folder \<open>sub\<close>, where \<open>deep.py\<close> is the only child of \<open>sub\<close> and
  carries the id of \<open>sub\<close> as its parent.
\<close>

theorem depth_inference_forest:
  "is_root_label line_app
   \<and> text_lines depth_listing = [line_app, line_main, line_sub, line_deep]
   \<and> forest_of (parseStructure gen depth_listing) = Some
       [FileNode (gen 0) (ascii ''main.py'') File
          (Some (ascii ''# main.py'' @ [LF] @ ascii ''# TODO: Implement functionality'')) None None,
        FileNode (gen 1) (ascii ''sub'') Folder None
          (Some [FileNode (gen 2) (ascii ''deep.py'') File
                   (Some (ascii ''# deep.py'' @ [LF] @ ascii ''# TODO: Implement functionality''))
                   None (Some (gen 1))]) None]"
  by (simp add: line_app_eval depth_listing_lines depth_listing_forest)

text \<open>
  The claim as written fails: the forest has no node named \<open>app\<close>, so nothing is a child
  of \<open>app\<close>; its nodes are \<open>main.py\<close>, \<open>sub\<close> and \<open>deep.py\<close>.
\<close>

theorem depth_inference_counterexample:
  "map name (all_nodes (the (forest_of (parseStructure sample_ids depth_listing))))
     = [ascii ''main.py'', ascii ''sub'', ascii ''deep.py'']
   \<and> ascii ''app'' \<notin> set (map name (all_nodes (the (forest_of (parseStructure sample_ids depth_listing)))))"
  by (simp add: depth_listing_forest) (simp add: ascii_def)

text \<open>
  C3. The source tests two of the four glyphs: a line is discarded as a root label exactly
  when it contains \<open>/\<close> and does not start with a space, \<open>U+251C\<close> or \<open>U+2514\<close>. The line of a
  nested folder that starts with the vertical bar \<open>U+2502\<close> has a box-drawing prefix and is
  discarded all the same, leaving the parser's state as it was.
\<close>

theorem root_label_misses_glyphs:
  "(is_root_label line \<longleftrightarrow>
      SLASH \<in> set line \<and> take 1 line \<noteq> [SPACE] \<and> take 1 line \<noteq> [BOX_TEE] \<and> take 1 line \<noteq> [BOX_ELBOW])
   \<and> str_startsWith nested_folder_line [BOX_VERT]
   \<and> is_root_label nested_folder_line
   \<and> process_line gen s nested_folder_line = s"
proof -
  have inc: "str_includes l [c] \<longleftrightarrow> c \<in> set l" for l :: jsstring and c
    by (induction l) (auto simp: str_startsWith_def)
  have r: "is_root_label nested_folder_line"
    by (simp add: nested_folder_line_def is_root_label_def str_startsWith_def char_defs ascii_def)
  then have "\<not> kept nested_folder_line" by (simp add: kept_def)
  then have "process_line gen s nested_folder_line = s" by (rule process_line_skip)
  moreover have "str_startsWith nested_folder_line [BOX_VERT]"
    by (simp add: nested_folder_line_def str_startsWith_def)
  ultimately show ?thesis
    using r by (simp add: is_root_label_def inc str_startsWith_def)
qed

section \<open>Totality, frames and the same-depth rule\<close>

lemma parse_lines_snoc: "parse_lines gen (ls @ [line]) = process_line gen (parse_lines gen ls) line"
  by (simp add: parse_lines_def)

lemma parse_inv_heap_length: "parse_inv gen ls s \<Longrightarrow> length (heap s) = length (filter kept ls)"
  by (simp add: parse_inv_def inv_nodes_def)

lemma parseStructure_forest:
  "forest_of (parseStructure gen text)
   = Some (map (node_at (heap (parse_lines gen (text_lines text))))
               (result (parse_lines gen (text_lines text))))"
proof -
  have inv: "parse_inv gen (text_lines text) (parse_lines gen (text_lines text))"
    by (rule parse_inv_parse_lines)
  then have "inv_kids gen (filter kept (text_lines text)) (heap (parse_lines gen (text_lines text)))"
    and "inv_roots (heap (parse_lines gen (text_lines text))) (result (parse_lines gen (text_lines text)))"
    by (simp_all add: parse_inv_def)
  from forest_of_inv[OF this] show ?thesis by (simp add: parseStructure_def Let_def)
qed

text \<open>
  C5. For every text and every supply of ids, parse ends with a store from which the walk
  reads a forest (no dangling address, no cycle): there is no failing result. The nodes of
  that forest are, up to order, exactly one node per kept line, with the id, name, kind
  and content that line gives it; a line that is not kept leaves the state untouched, and
  the store grows by exactly one object for a kept line.
\<close>

theorem parse_total:
  "(\<exists>forest. forest_of (parseStructure gen text) = Some forest
      \<and> length (all_nodes forest) = length (filter kept (text_lines text))
      \<and> mset (map node_fields (all_nodes forest))
          = mset (map2 (line_fields gen) [0..<length (filter kept (text_lines text))]
                       (filter kept (text_lines text))))
   \<and> (kept line \<or> process_line gen s line = s)
   \<and> length (heap (parse_lines gen (ls @ [line])))
       = length (heap (parse_lines gen ls)) + (if kept line then 1 else 0)"
proof (intro conjI)
  let ?s = "parse_lines gen (text_lines text)"
  let ?kl = "filter kept (text_lines text)"
  have inv: "parse_inv gen (text_lines text) ?s" by (rule parse_inv_parse_lines)
  have f: "mset (map node_fields (all_nodes (map (node_at (heap ?s)) (result ?s))))
           = mset (map2 (line_fields gen) [0..<length ?kl] ?kl)"
    by (rule forest_fields[OF inv])
  then have "size (mset (map node_fields (all_nodes (map (node_at (heap ?s)) (result ?s)))))
             = size (mset (map2 (line_fields gen) [0..<length ?kl] ?kl))"
    by simp
  then have "length (all_nodes (map (node_at (heap ?s)) (result ?s))) = length ?kl"
    by simp
  with f parseStructure_forest[of gen "text"]
  show "\<exists>forest. forest_of (parseStructure gen text) = Some forest
      \<and> length (all_nodes forest) = length ?kl
      \<and> mset (map node_fields (all_nodes forest)) = mset (map2 (line_fields gen) [0..<length ?kl] ?kl)"
    by blast
next
  show "kept line \<or> process_line gen s line = s"
    using process_line_skip[of line gen s] by blast
next
  have "length (heap (parse_lines gen (ls @ [line]))) = length (filter kept (ls @ [line]))"
    by (rule parse_inv_heap_length[OF parse_inv_parse_lines])
  moreover have "length (heap (parse_lines gen ls)) = length (filter kept ls)"
    by (rule parse_inv_heap_length[OF parse_inv_parse_lines])
  ultimately show "length (heap (parse_lines gen (ls @ [line])))
       = length (heap (parse_lines gen ls)) + (if kept line then 1 else 0)"
    by simp
qed

text \<open>
  C10. After any lines \<open>ls\<close> of the input, the depths of the frames increase strictly from
  the bottom of the stack to its top. So for the next line, the frames left after popping
  are exactly the frames of smaller depth; when the line's node is attached to a parent,
  the parent is the node of the last of these, whose recorded depth is strictly below the
  line's depth; and in the store every child comes from a strictly deeper line than its
  parent.
\<close>

theorem frame_depths_increase:
  "sorted_wrt (<) (map snd (stack (parse_lines gen ls)))
   \<and> pop_frames (stack (parse_lines gen ls)) (line_depth line)
       = filter (\<lambda>f. snd f < line_depth line) (stack (parse_lines gen ls))
   \<and> (kept line \<and> pop_frames (stack (parse_lines gen ls)) (line_depth line) \<noteq> [] \<longrightarrow>
        snd (last (pop_frames (stack (parse_lines gen ls)) (line_depth line))) < line_depth line
      \<and> kids (heap (parse_lines gen (ls @ [line]))
                ! fst (last (pop_frames (stack (parse_lines gen ls)) (line_depth line))))
          = kids (heap (parse_lines gen ls)
                    ! fst (last (pop_frames (stack (parse_lines gen ls)) (line_depth line))))
            @ [length (heap (parse_lines gen ls))]
      \<and> o_name (heap (parse_lines gen (ls @ [line])) ! length (heap (parse_lines gen ls)))
          = line_name line)
   \<and> (\<forall>p c. p < length (heap (parse_lines gen ls))
              \<and> c \<in> set (kids (heap (parse_lines gen ls) ! p))
          \<longrightarrow> line_depth (filter kept ls ! p) < line_depth (filter kept ls ! c))"
proof (intro conjI impI allI)
  let ?s = "parse_lines gen ls"
  have inv: "parse_inv gen ls ?s" by (rule parse_inv_parse_lines)
  then have fr: "inv_frames (filter kept ls) (heap ?s) (stack ?s)"
    and ki: "inv_kids gen (filter kept ls) (heap ?s)"
    by (simp_all add: parse_inv_def)
  from fr show so: "sorted_wrt (<) (map snd (stack ?s))" by (simp add: inv_frames_def)
  then show "pop_frames (stack ?s) (line_depth line)
             = filter (\<lambda>f. snd f < line_depth line) (stack ?s)"
    by (rule pop_frames_filter)
  {
    fix p c
    assume "p < length (heap ?s) \<and> c \<in> set (kids (heap ?s ! p))"
    with ki show "line_depth (filter kept ls ! p) < line_depth (filter kept ls ! c)"
      unfolding inv_kids_def by blast
  }
  assume a: "kept line \<and> pop_frames (stack ?s) (line_depth line) \<noteq> []"
  let ?stk1 = "pop_frames (stack ?s) (line_depth line)"
  let ?p = "fst (last ?stk1)"
  from a show "snd (last ?stk1) < line_depth line" by (simp add: pop_frames_top)
  from a have "last ?stk1 \<in> set ?stk1" by simp
  with inv_frames_pop(1)[OF fr, of "line_depth line"] have p: "?p < length (heap ?s)"
    unfolding inv_frames_def by blast
  from a parse_inv_child(2)[OF inv, of line] obtain cs where
    st: "process_line gen ?s line =
     \<lparr>heap = (heap ?s)[?p := (heap ?s ! ?p)\<lparr>o_children := Some (cs @ [length (heap ?s)])\<rparr>]
             @ [(fresh_node gen (length (heap ?s)) line)\<lparr>o_parent := Some (gen ?p)\<rparr>],
      result = result ?s, stack = push_frame ?stk1 (length (heap ?s)) line\<rparr>"
    and cs: "o_children (heap ?s ! ?p) = Some cs"
    by blast
  from cs have k: "kids (heap ?s ! ?p) = cs" by (simp add: kids_def)
  show "kids (heap (parse_lines gen (ls @ [line])) ! ?p) = kids (heap ?s ! ?p) @ [length (heap ?s)]"
    unfolding parse_lines_snoc st k using p by (simp add: nth_append)
  show "o_name (heap (parse_lines gen (ls @ [line])) ! length (heap ?s)) = line_name line"
    unfolding parse_lines_snoc st by (simp add: nth_append fresh_node_def)
qed

























theorem frame_depths_increase_witness:
  "kept line_deep
   \<and> pop_frames (stack (parse_lines sample_ids [line_app, line_main, line_sub])) (line_depth line_deep)
       = [(1, 1)]
   \<and> snd (last [(1 :: nat, 1 :: rat)]) < line_depth line_deep
   \<and> kids (heap (parse_lines sample_ids [line_app, line_main, line_sub, line_deep]) ! 1) = [2]
   \<and> o_name (heap (parse_lines sample_ids [line_app, line_main, line_sub, line_deep]) ! 2)
       = ascii ''deep.py''
   \<and> line_depth (filter kept [line_app, line_main, line_sub, line_deep] ! 1)
       < line_depth (filter kept [line_app, line_main, line_sub, line_deep] ! 2)"
  using frame_depths_increase[of sample_ids "[line_app, line_main, line_sub]" line_deep]
    frame_depths_increase[of sample_ids "[line_app, line_main, line_sub, line_deep]" line_deep]
  by (simp add: run_sub run_deep line_app_eval line_main_eval line_sub_eval line_deep_eval
      pop_frames_single fresh_evals kids_def)

section \<open>The JSON round trip\<close>

lemma hex_digits_back: "list_all (\<lambda>d. unhex_digit (hex_digit d) = Some d) [0..<16]"
  by code_simp

lemma unhex_hex_digit: "d < 16 \<Longrightarrow> unhex_digit (hex_digit d) = Some d"
  using hex_digits_back by (simp add: list_all_iff)

lemma nibbles:
  assumes "n < 65536"
  shows "((n div 4096 mod 16 * 16 + n div 256 mod 16) * 16 + n div 16 mod 16) * 16 + n mod 16
         = (n::nat)"
proof -
  define m where "m = n div 16"
  define k where "k = m div 16"
  define j where "j = k div 16"
  have 1: "n div 256 = k" by (simp add: k_def m_def div_mult2_eq)
  have 2: "n div 4096 = j" by (simp add: j_def k_def m_def div_mult2_eq)
  from assms have "n div 4096 < 16" by (simp add: less_mult_imp_div_less)
  with 2 have j: "j mod 16 = j" by simp
  have a: "j * 16 + k mod 16 = k" unfolding j_def by (rule div_mult_mod_eq)
  have b: "k * 16 + m mod 16 = m" unfolding k_def by (rule div_mult_mod_eq)
  have c: "m * 16 + n mod 16 = n" unfolding m_def by (rule div_mult_mod_eq)
  show ?thesis
    unfolding 1 2 j a m_def[symmetric] b c ..
qed

lemma unhex4_hex4:
  "hex4 c = [h1, h2, h3, h4] \<Longrightarrow> unhex4 h1 h2 h3 h4 = Some c"
proof -
  assume h: "hex4 c = [h1, h2, h3, h4]"
  have lt: "unat c < 65536" using unsigned_less[of c, where ?'a = nat] by simp
  from h have "unhex4 h1 h2 h3 h4 = Some (of_nat (((unat c div 4096 mod 16 * 16 + unat c div 256 mod 16) * 16
        + unat c div 16 mod 16) * 16 + unat c mod 16))"
    by (auto simp: hex4_def unhex4_def unhex_hex_digit)
  then have "unhex4 h1 h2 h3 h4 = Some (of_nat (unat c))"
    by (simp only: nibbles[OF lt])
  then show ?thesis by simp
qed

lemma high_plain: "is_high_surrogate c \<Longrightarrow> c \<noteq> 0x22 \<and> c \<noteq> 0x5C \<and> \<not> c < 0x20"
  by (auto simp: is_high_surrogate_def word_le_nat_alt word_less_nat_alt)

lemma low_plain: "is_low_surrogate c \<Longrightarrow> c \<noteq> 0x22 \<and> c \<noteq> 0x5C \<and> \<not> c < 0x20"
  by (auto simp: is_low_surrogate_def word_le_nat_alt word_less_nat_alt)

lemma parse_string_plain:
  "c \<noteq> 0x22 \<Longrightarrow> c \<noteq> 0x5C \<Longrightarrow> \<not> c < 0x20 \<Longrightarrow> parse_string (c # t) = consume c (parse_string t)"
  by simp

lemma parse_string_escape: "parse_string (escape_unit c @ t) = consume c (parse_string t)"
proof -
  have u: "parse_string ([0x5C, 0x75] @ hex4 c @ t) = consume c (parse_string t)"
  proof -
    obtain h1 h2 h3 h4 where h: "hex4 c = [h1, h2, h3, h4]" by (simp add: hex4_def)
    with unhex4_hex4[OF h] show ?thesis by simp
  qed
  show ?thesis
    unfolding escape_unit_def using u by (simp add: simple_escape_def)
qed

lemma parse_string_quote_body: "parse_string (quote_body s @ 0x22 # rest) = Some (s, rest)"
proof (induction s rule: quote_body.induct)
  case 1
  then show ?case by simp
next
  case (2 c)
  have "parse_string (escape_unit c @ 0x22 # rest) = consume c (parse_string (0x22 # rest))"
    by (rule parse_string_escape)
  then show ?case by (simp add: consume_def)
next
  case (3 c d s)
  show ?case
  proof (cases "is_high_surrogate c \<and> is_low_surrogate d")
    case True
    then have t: "(is_high_surrogate c \<and> is_low_surrogate d) = True" by simp
    have q: "quote_body (c # d # s) @ 0x22 # rest = c # d # (quote_body s @ 0x22 # rest)"
      by (simp only: quote_body.simps(3) t if_True append_Cons)
    from True have hc: "c \<noteq> 0x22" "c \<noteq> 0x5C" "\<not> c < 0x20"
      and ld: "d \<noteq> 0x22" "d \<noteq> 0x5C" "\<not> d < 0x20"
      using high_plain[of c] low_plain[of d] by simp_all
    have "parse_string (c # d # (quote_body s @ 0x22 # rest))
          = consume c (consume d (parse_string (quote_body s @ 0x22 # rest)))"
      by (simp only: parse_string_plain[OF hc] parse_string_plain[OF ld])
    also have "\<dots> = Some (c # d # s, rest)"
      by (simp only: "3.IH"(1)[OF True]) (simp add: consume_def)
    finally show ?thesis unfolding q .
  next
    case False
    then have f: "(is_high_surrogate c \<and> is_low_surrogate d) = False" by simp
    have q: "quote_body (c # d # s) @ 0x22 # rest
                  = escape_unit c @ (quote_body (d # s) @ 0x22 # rest)"
      by (simp only: quote_body.simps(3) f if_False append_assoc)
    have "parse_string (escape_unit c @ (quote_body (d # s) @ 0x22 # rest))
          = consume c (parse_string (quote_body (d # s) @ 0x22 # rest))"
      by (rule parse_string_escape)
    also have "\<dots> = Some (c # d # s, rest)"
      by (simp only: "3.IH"(2)[OF False]) (simp add: consume_def)
    finally show ?thesis unfolding q .
  qed
qed

lemma parse_string_quote: "parse_string (tl (quote s) @ rest) = Some (s, rest)"
  by (simp add: quote_def parse_string_quote_body QUOTE_def)

lemma ws_simps [simp]: "ws []" "ws (c # w) = (is_json_ws c \<and> ws w)" "ws (u @ v) = (ws u \<and> ws v)"
  by (auto simp: ws_def)

lemma ws_newline_indent [simp]: "ws (newline_indent ind)"
  by (simp add: newline_indent_def ws_def is_json_ws_def char_defs list_all_iff)

lemma ws_space [simp]: "is_json_ws 0x20"
  by (simp add: is_json_ws_def)

lemma skip_ws_ws: "ws w \<Longrightarrow> skip_ws (w @ s) = skip_ws s"
  by (induction w) (simp_all add: skip_ws_def)

lemma skip_ws_head: "\<not> is_json_ws c \<Longrightarrow> skip_ws (c # s) = c # s"
  by (simp add: skip_ws_def)

lemma skip_ws_to: "ws w \<Longrightarrow> \<not> is_json_ws c \<Longrightarrow> skip_ws (w @ c # s) = c # s"
  by (simp add: skip_ws_ws skip_ws_head)

lemma value_head_not_ws: "value_head c \<Longrightarrow> \<not> is_json_ws c"
  by (auto simp: value_head_def is_json_ws_def)

lemma stringify_head: "\<exists>c t. stringify ind j = c # t \<and> value_head c"
proof (cases j)
  case (JArray xs)
  then show ?thesis by (cases xs) (simp_all add: value_head_def ascii_def)
next
  case (JObject ms)
  then show ?thesis by (cases ms) (simp_all add: value_head_def ascii_def)
qed (simp_all add: value_head_def ascii_def quote_def char_defs)

lemma parse_value_string:
  assumes "ws w"
  shows "parse_value (Suc f) (w @ quote s @ rest) = Some (JString s, rest)"
proof -
  have q: "quote s @ rest = 0x22 # (tl (quote s) @ rest)"
    by (simp add: quote_def char_defs)
  have "skip_ws (w @ quote s @ rest) = 0x22 # (tl (quote s) @ rest)"
    unfolding q by (rule skip_ws_to[OF assms]) (simp add: is_json_ws_def)
  then show ?thesis
    by (simp add: parse_string_quote)
qed

lemma parse_value_literals:
  assumes "ws w"
  shows "parse_value (Suc f) (w @ ascii ''null'' @ rest) = Some (JNull, rest)"
    and "parse_value (Suc f) (w @ ascii ''true'' @ rest) = Some (JBool True, rest)"
    and "parse_value (Suc f) (w @ ascii ''false'' @ rest) = Some (JBool False, rest)"
proof -
  have "skip_ws (w @ ascii ''null'' @ rest) = ascii ''null'' @ rest"
    "skip_ws (w @ ascii ''true'' @ rest) = ascii ''true'' @ rest"
    "skip_ws (w @ ascii ''false'' @ rest) = ascii ''false'' @ rest"
    using skip_ws_to[OF assms, of "0x6E"] skip_ws_to[OF assms, of "0x74"]
      skip_ws_to[OF assms, of "0x66"]
    by (simp_all add: ascii_def is_json_ws_def)
  then show "parse_value (Suc f) (w @ ascii ''null'' @ rest) = Some (JNull, rest)"
    and "parse_value (Suc f) (w @ ascii ''true'' @ rest) = Some (JBool True, rest)"
    and "parse_value (Suc f) (w @ ascii ''false'' @ rest) = Some (JBool False, rest)"
    by (simp_all add: ascii_def str_startsWith_def)
qed

lemma parse_value_empty:
  assumes "ws w"
  shows "parse_value (Suc f) (w @ ascii ''[]'' @ rest) = Some (JArray [], rest)"
    and "parse_value (Suc f) (w @ ascii ''{}'' @ rest) = Some (JObject [], rest)"
proof -
  have "skip_ws (w @ ascii ''[]'' @ rest) = 0x5B # 0x5D # rest"
    "skip_ws (w @ ascii ''{}'' @ rest) = 0x7B # 0x7D # rest"
    using skip_ws_to[OF assms, of "0x5B"] skip_ws_to[OF assms, of "0x7B"]
    by (simp_all add: ascii_def is_json_ws_def)
  then show "parse_value (Suc f) (w @ ascii ''[]'' @ rest) = Some (JArray [], rest)"
    and "parse_value (Suc f) (w @ ascii ''{}'' @ rest) = Some (JObject [], rest)"
    by (simp_all add: skip_ws_head is_json_ws_def)
qed

lemma parse_value_array:
  assumes "ws w" "ws w1" "value_head c"
  shows "parse_value (Suc f) (w @ 0x5B # w1 @ c # t)
         = (case parse_elements f (w1 @ c # t) of
              None \<Rightarrow> None
            | Some (xs, rest) \<Rightarrow> Some (JArray xs, rest))"
proof -
  have 1: "skip_ws (w @ 0x5B # w1 @ c # t) = 0x5B # w1 @ c # t"
    by (rule skip_ws_to[OF assms(1)]) (simp add: is_json_ws_def)
  have 2: "skip_ws (w1 @ c # t) = c # t"
    by (rule skip_ws_to[OF assms(2) value_head_not_ws[OF assms(3)]])
  from assms(3) have 3: "c \<noteq> 0x5D" by (auto simp: value_head_def)
  show ?thesis
    by (simp add: 1 2 3)
qed

lemma parse_value_object:
  assumes "ws w" "ws w1"
  shows "parse_value (Suc f) (w @ 0x7B # w1 @ 0x22 # t)
         = (case parse_members f (w1 @ 0x22 # t) of
              None \<Rightarrow> None
            | Some (ms, rest) \<Rightarrow> Some (JObject ms, rest))"
proof -
  have 1: "skip_ws (w @ 0x7B # w1 @ 0x22 # t) = 0x7B # w1 @ 0x22 # t"
    by (rule skip_ws_to[OF assms(1)]) (simp add: is_json_ws_def)
  have 2: "skip_ws (w1 @ 0x22 # t) = 0x22 # t"
    by (rule skip_ws_to[OF assms(2)]) (simp add: is_json_ws_def)
  show ?thesis
    by (simp add: 1 2)
qed

lemma parse_elements_last:
  assumes "parse_value f s = Some (x, w' @ 0x5D # rest)" "ws w'"
  shows "parse_elements (Suc f) s = Some ([x], rest)"
proof -
  have "skip_ws (w' @ 0x5D # rest) = 0x5D # rest"
    by (rule skip_ws_to[OF assms(2)]) (simp add: is_json_ws_def)
  with assms(1) show ?thesis by simp
qed

lemma parse_elements_more:
  assumes "parse_value f s = Some (x, 0x2C # r')" "parse_elements f r' = Some (xs, rest)"
  shows "parse_elements (Suc f) s = Some (x # xs, rest)"
proof -
  have "skip_ws (0x2C # r') = 0x2C # r'"
    by (rule skip_ws_head) (simp add: is_json_ws_def)
  with assms show ?thesis by simp
qed

lemma parse_members_key:
  assumes "ws w"
  shows "parse_members (Suc f) (w @ quote k @ ascii '': '' @ sv)
         = (case parse_value f (0x20 # sv) of
              None \<Rightarrow> None
            | Some (v, r3) \<Rightarrow>
                (case skip_ws r3 of
                   [] \<Rightarrow> None
                 | d # r4 \<Rightarrow>
                     if d = 0x7D then Some ([(k, v)], r4)
                     else if d = 0x2C then
                       (case parse_members f r4 of
                          None \<Rightarrow> None
                        | Some (ms, rest) \<Rightarrow> Some ((k, v) # ms, rest))
                     else None))"
proof -
  have q: "quote k @ ascii '': '' @ sv = 0x22 # (tl (quote k) @ 0x3A # 0x20 # sv)"
    by (simp add: quote_def char_defs ascii_def)
  have 1: "skip_ws (w @ quote k @ ascii '': '' @ sv) = 0x22 # (tl (quote k) @ 0x3A # 0x20 # sv)"
    unfolding q by (rule skip_ws_to[OF assms]) (simp add: is_json_ws_def)
  have 2: "skip_ws (0x3A # 0x20 # sv) = 0x3A # 0x20 # sv"
    by (rule skip_ws_head) (simp add: is_json_ws_def)
  show ?thesis
    by (simp add: 1 2 parse_string_quote)
qed

lemma parse_members_last:
  assumes "ws w" "parse_value f (0x20 # sv) = Some (v, w' @ 0x7D # rest)" "ws w'"
  shows "parse_members (Suc f) (w @ quote k @ ascii '': '' @ sv) = Some ([(k, v)], rest)"
proof -
  have "skip_ws (w' @ 0x7D # rest) = 0x7D # rest"
    by (rule skip_ws_to[OF assms(3)]) (simp add: is_json_ws_def)
  with assms(2) show ?thesis
    by (subst parse_members_key[OF assms(1)]) simp
qed

lemma parse_members_more:
  assumes "ws w" "parse_value f (0x20 # sv) = Some (v, 0x2C # r')"
    "parse_members f r' = Some (ms, rest)"
  shows "parse_members (Suc f) (w @ quote k @ ascii '': '' @ sv) = Some ((k, v) # ms, rest)"
proof -
  have "skip_ws (0x2C # r') = 0x2C # r'"
    by (rule skip_ws_head) (simp add: is_json_ws_def)
  with assms(2,3) show ?thesis
    by (subst parse_members_key[OF assms(1)]) simp
qed

lemma items_head: "\<exists>c t. stringify_items ind (x # xs) = c # t \<and> value_head c"
proof -
  obtain c t where "stringify ind x = c # t" "value_head c"
    using stringify_head[of ind x] by blast
  then show ?thesis by (cases xs) simp_all
qed

lemma props_head: "\<exists>t. stringify_props ind (m # ms) = 0x22 # t"
  by (cases m; cases ms) (simp_all add: quote_def char_defs)

lemma parse_stringify:
  "(\<forall>f w rest. ws w \<longrightarrow> cost j \<le> f \<longrightarrow>
      parse_value f (w @ stringify ind j @ rest) = Some (j, rest))"
  "(xs \<noteq> [] \<longrightarrow> (\<forall>f w w' rest. ws w \<longrightarrow> ws w' \<longrightarrow> cost_items xs \<le> f \<longrightarrow>
      parse_elements f (w @ stringify_items ind' xs @ w' @ 0x5D # rest) = Some (xs, rest)))"
  "(ms \<noteq> [] \<longrightarrow> (\<forall>f w w' rest. ws w \<longrightarrow> ws w' \<longrightarrow> cost_props ms \<le> f \<longrightarrow>
      parse_members f (w @ stringify_props ind'' ms @ w' @ 0x7D # rest) = Some (ms, rest)))"
proof (induction ind j and ind' xs and ind'' ms rule: stringify_stringify_items_stringify_props.induct)
  case (1 ind)
  show ?case
  proof (intro allI impI)
    fix f w rest assume w: "ws w" and c: "cost JNull \<le> f"
    then obtain f' where "f = Suc f'" by (cases f) auto
    with parse_value_literals(1)[OF w] show "parse_value f (w @ stringify ind JNull @ rest) = Some (JNull, rest)"
      by simp
  qed
next
  case (2 ind b)
  show ?case
  proof (intro allI impI)
    fix f w rest assume w: "ws w" and c: "cost (JBool b) \<le> f"
    then obtain f' where "f = Suc f'" by (cases f) auto
    with parse_value_literals(2,3)[OF w]
    show "parse_value f (w @ stringify ind (JBool b) @ rest) = Some (JBool b, rest)"
      by simp
  qed
next
  case (3 ind s)
  show ?case
  proof (intro allI impI)
    fix f w rest assume w: "ws w" and c: "cost (JString s) \<le> f"
    then obtain f' where "f = Suc f'" by (cases f) auto
    with parse_value_string[OF w]
    show "parse_value f (w @ stringify ind (JString s) @ rest) = Some (JString s, rest)"
      by simp
  qed
next
  case (4 ind)
  show ?case
  proof (intro allI impI)
    fix f w rest assume w: "ws w" and c: "cost (JArray []) \<le> f"
    then obtain f' where "f = Suc f'" by (cases f) auto
    with parse_value_empty(1)[OF w]
    show "parse_value f (w @ stringify ind (JArray []) @ rest) = Some (JArray [], rest)"
      by simp
  qed
next
  case (5 ind x xs)
  define i2 where "i2 = ind + 2"
  note ih = 5[folded i2_def]
  show ?case
  proof (intro allI impI)
    fix f w rest assume w: "ws w" and c: "cost (JArray (x # xs)) \<le> f"
    then obtain f' where f: "f = Suc f'" and c': "cost_items (x # xs) \<le> f'" by (cases f) auto
    obtain c t where h: "stringify_items i2 (x # xs) = c # t" and vh: "value_head c"
      using items_head by blast
    have s: "stringify ind (JArray (x # xs))
             = 0x5B # newline_indent i2 @ stringify_items i2 (x # xs) @ newline_indent ind @ [0x5D]"
      by (simp add: i2_def ascii_def del: stringify_items.simps)
    have e: "parse_elements f' (newline_indent i2 @ stringify_items i2 (x # xs)
                @ newline_indent ind @ 0x5D # rest) = Some (x # xs, rest)"
      using ih c' ws_newline_indent by blast
    show "parse_value f (w @ stringify ind (JArray (x # xs)) @ rest)
                     = Some (JArray (x # xs), rest)"
      using parse_value_array[OF w ws_newline_indent vh, of f' i2
          "t @ newline_indent ind @ 0x5D # rest"] e
      unfolding f s h by simp
  qed
next
  case (6 ind)
  show ?case
  proof (intro allI impI)
    fix f w rest assume w: "ws w" and c: "cost (JObject []) \<le> f"
    then obtain f' where "f = Suc f'" by (cases f) auto
    with parse_value_empty(2)[OF w]
    show "parse_value f (w @ stringify ind (JObject []) @ rest) = Some (JObject [], rest)"
      by simp
  qed
next
  case (7 ind m ms)
  define i2 where "i2 = ind + 2"
  note ih = 7[folded i2_def]
  show ?case
  proof (intro allI impI)
    fix f w rest assume w: "ws w" and c: "cost (JObject (m # ms)) \<le> f"
    then obtain f' where f: "f = Suc f'" and c': "cost_props (m # ms) \<le> f'" by (cases f) auto
    obtain t where h: "stringify_props i2 (m # ms) = 0x22 # t"
      using props_head by blast
    have s: "stringify ind (JObject (m # ms))
             = 0x7B # newline_indent i2 @ stringify_props i2 (m # ms) @ newline_indent ind @ [0x7D]"
      by (simp add: i2_def ascii_def del: stringify_props.simps)
    have e: "parse_members f' (newline_indent i2 @ stringify_props i2 (m # ms)
                @ newline_indent ind @ 0x7D # rest) = Some (m # ms, rest)"
      using ih c' ws_newline_indent by blast
    show "parse_value f (w @ stringify ind (JObject (m # ms)) @ rest)
                     = Some (JObject (m # ms), rest)"
      using parse_value_object[OF w ws_newline_indent, of f' i2
          "t @ newline_indent ind @ 0x7D # rest"] e
      unfolding f s h by simp
  qed
next
  case (8 ind)
  show ?case by simp
next
  case (9 ind x)
  show ?case
  proof (intro allI impI)
    fix f w w' rest assume w: "ws w" "ws w'" and c: "cost_items [x] \<le> f"
    then obtain f' where f: "f = Suc f'" and c': "cost x \<le> f'" by (cases f) auto
    from 9 w(1) c' have "parse_value f' (w @ stringify ind x @ (w' @ 0x5D # rest))
                         = Some (x, w' @ 0x5D # rest)"
      by blast
    from parse_elements_last[OF this w(2)]
    show "parse_elements f (w @ stringify_items ind [x] @ w' @ 0x5D # rest) = Some ([x], rest)"
      by (simp add: f)
  qed
next
  case (10 ind x y ys)
  show ?case
  proof (intro allI impI)
    fix f w w' rest assume w: "ws w" "ws w'" and c: "cost_items (x # y # ys) \<le> f"
    then obtain f' where f: "f = Suc f'" and cx: "cost x \<le> f'"
      and cy: "cost_items (y # ys) \<le> f'" by (cases f) auto
    let ?tail = "newline_indent ind @ stringify_items ind (y # ys) @ w' @ 0x5D # rest"
    from 10(1) w(1) cx have v: "parse_value f' (w @ stringify ind x @ (0x2C # ?tail))
                         = Some (x, 0x2C # ?tail)"
      by blast
    from 10(2) w(2) cy have e: "parse_elements f' ?tail = Some (y # ys, rest)"
      using ws_newline_indent by blast
    from parse_elements_more[OF v e]
    show "parse_elements f (w @ stringify_items ind (x # y # ys) @ w' @ 0x5D # rest)
          = Some (x # y # ys, rest)"
      by (simp add: f ascii_def)
  qed
next
  case (11 ind)
  show ?case by simp
next
  case (12 ind k v)
  show ?case
  proof (intro allI impI)
    fix f w w' rest assume w: "ws w" "ws w'" and c: "cost_props [(k, v)] \<le> f"
    then obtain f' where f: "f = Suc f'" and c': "cost v \<le> f'" by (cases f) auto
    have "ws [0x20]" by simp
    with 12 c' have "parse_value f' ([0x20] @ stringify ind v @ (w' @ 0x7D # rest))
                         = Some (v, w' @ 0x7D # rest)"
      by blast
    then have "parse_value f' (0x20 # (stringify ind v @ w' @ 0x7D # rest))
                         = Some (v, w' @ 0x7D # rest)"
      by simp
    from parse_members_last[OF w(1) this w(2)]
    show "parse_members f (w @ stringify_props ind [(k, v)] @ w' @ 0x7D # rest)
          = Some ([(k, v)], rest)"
      by (simp add: f)
  qed
next
  case (13 ind k v m ms)
  show ?case
  proof (intro allI impI)
    fix f w w' rest assume w: "ws w" "ws w'" and c: "cost_props ((k, v) # m # ms) \<le> f"
    then obtain f' where f: "f = Suc f'" and cx: "cost v \<le> f'"
      and cy: "cost_props (m # ms) \<le> f'" by (cases f) auto
    let ?tail = "newline_indent ind @ stringify_props ind (m # ms) @ w' @ 0x7D # rest"
    have "ws [0x20]" by simp
    with 13(1) cx have "parse_value f' ([0x20] @ stringify ind v @ (0x2C # ?tail))
                         = Some (v, 0x2C # ?tail)"
      by blast
    then have v: "parse_value f' (0x20 # (stringify ind v @ 0x2C # ?tail)) = Some (v, 0x2C # ?tail)"
      by simp
    from 13(2) w(2) cy have e: "parse_members f' ?tail = Some (m # ms, rest)"
      using ws_newline_indent by blast
    from parse_members_more[OF w(1) v e]
    show "parse_members f (w @ stringify_props ind ((k, v) # m # ms) @ w' @ 0x7D # rest)
          = Some ((k, v) # m # ms, rest)"
      by (simp add: f ascii_def)
  qed
qed

lemma cost_length:
  "cost j \<le> length (stringify ind j)"
  "cost_items xs \<le> length (stringify_items ind' xs) + 1"
  "cost_props ms \<le> length (stringify_props ind'' ms) + 1"
proof (induction ind j and ind' xs and ind'' ms rule: stringify_stringify_items_stringify_props.induct)
  case (3 ind s)
  show ?case by (simp add: quote_def)
next
  case (5 ind x xs)
  then show ?case by (simp add: ascii_def del: stringify_items.simps cost_items.simps)
next
  case (7 ind m ms)
  then show ?case by (simp add: ascii_def del: stringify_props.simps cost_props.simps)
next
  case (10 ind x y ys)
  then show ?case by (simp add: ascii_def newline_indent_def)
next
  case (12 ind k v)
  then show ?case by (simp add: ascii_def)
next
  case (13 ind k v m ms)
  then show ?case by (simp add: ascii_def newline_indent_def)
qed (simp_all add: ascii_def)

lemma JSON_parse_stringify: "JSON_parse (stringify ind j) = Some j"
proof -
  have "parse_value (length (stringify ind j)) ([] @ stringify ind j @ []) = Some (j, [])"
    using parse_stringify(1)[of j ind] cost_length(1)[of j ind] ws_simps(1) by blast
  then show ?thesis by (simp add: JSON_parse_def skip_ws_def)
qed

lemma type_of_name_back: "type_of_name (type_name t) = Some t"
  by (cases t) (simp_all add: type_of_name_def type_name_def ascii_def)

lemma json_node_back: "json_node (node_json n) = Some n"
proof (induction n rule: node_json.induct)
  case (1 i n t c ch p)
  have kids: "those (map (json_node \<circ> node_json) cs) = Some cs" if "ch = Some cs" for cs
  proof -
    have "those (map (json_node \<circ> node_json) cs) = Some (map (\<lambda>x. x) cs)"
      by (rule those_map_Some) (simp add: 1 that)
    then show ?thesis by simp
  qed
  show ?case
    by (cases c; cases ch; cases p)
       (simp_all add: field_def type_of_name_back opt_string_def kids ascii_def)
qed

lemma json_forest_back: "json_forest (forest_json forest) = Some forest"
proof -
  have "those (map (json_node \<circ> node_json) forest) = Some (map (\<lambda>x. x) forest)"
    by (rule those_map_Some) (simp add: json_node_back)
  then show ?thesis by (simp add: json_forest_def forest_json_def)
qed

text \<open>
  C9. For every forest, and so for every forest that parse returns, reading back the
  document \<open>JSON.stringify(fileTree, null, 2)\<close> gives the same forest: every node with its
  id, name, kind, content and parent, and its children in the same order at every level.
  \<open>downloadAsJson\<close> produces that document for every forest that is not empty.
\<close>

theorem json_round_trip:
  "read_back (structure_json forest) = Some forest
   \<and> downloadAsJson forest = (if forest = [] then None else Some (structure_json forest))
   \<and> (\<exists>parsed. forest_of (parseStructure gen text) = Some parsed
         \<and> read_back (structure_json parsed) = Some parsed)"
proof (intro conjI)
  show rt: "read_back (structure_json forest) = Some forest" for forest
    by (simp add: read_back_def structure_json_def JSON_parse_stringify json_forest_back)
  show "downloadAsJson forest = (if forest = [] then None else Some (structure_json forest))"
    by (simp add: downloadAsJson_def)
  from parseStructure_forest[of gen "text"] rt
  show "\<exists>parsed. forest_of (parseStructure gen text) = Some parsed
         \<and> read_back (structure_json parsed) = Some parsed"
    by blast
qed

lemma sample_document_eq: "structure_json sample_tree = sample_document"
  by code_simp

theorem json_round_trip_witness:
  "structure_json sample_tree = sample_document
   \<and> read_back sample_document = Some sample_tree
   \<and> downloadAsJson sample_tree = Some sample_document
   \<and> downloadAsJson [] = None"
  using json_round_trip[of sample_tree sample_ids "[]"] json_round_trip[of "[]" sample_ids "[]"]
  by (simp add: sample_document_eq) (simp add: sample_tree_def)

end
